theory Spec2Isabelle
  imports Main "HOL-Library.Word"
begin

section \<open>The sparse buffer of sparsebuffer.c\<close>

text \<open>
  A shallow embedding of \<^verbatim>\<open>sparsebuffer.c\<close>. Offsets and lengths are \<^verbatim>\<open>size_t\<close>
  values: words of an arbitrary width \<open>LENGTH('a)\<close>, whose \<open>+\<close> and \<open>-\<close> wrap
  around as the C operators do. Payload bytes are \<open>8 word\<close>.
\<close>

subsection \<open>Data model\<close>

text \<open>
  \<^verbatim>\<open>struct Range\<close>: the fields \<^verbatim>\<open>pos\<close>, \<^verbatim>\<open>size\<close> and \<^verbatim>\<open>data\<close>. The links
  \<^verbatim>\<open>prev\<close> and \<^verbatim>\<open>next\<close> are the order of the list that holds the ranges; a
  pointer to a node is an index into that list.
\<close>

record 'w Range =
  range_pos :: "'w"
  range_size :: "'w"
  range_data :: "8 word list"

text \<open>
  \<^verbatim>\<open>struct SBReader\<close>: the cursor \<^verbatim>\<open>pos\<close>, the logical \<^verbatim>\<open>size\<close> and the range
  list. The three allocator callbacks are not part of the state: every operation that
  allocates takes the outcomes of its allocator calls as an argument (see below).
\<close>

record 'w SBReader =
  reader_pos :: "'w"
  reader_size :: "'w"
  ranges :: "'w Range list"

text \<open>
  What the operations write into the caller's \<^verbatim>\<open>SBError\<close> buffer, one constructor for
  each \<^verbatim>\<open>snprintf\<close> of the source.
\<close>

datatype sb_error =
    Invalid_buffer_size          \<comment> \<open>"Invalid buffer size."\<close>
  | Load_past_end                \<comment> \<open>"Cannot load a range passed the end of the sparse buffer size."\<close>
  | Alloc_new_range              \<comment> \<open>"Could not allocate new range."\<close>
  | Alloc_entry_buffer           \<comment> \<open>"Could not allocate buffer for spares list entry."\<close>
  | Alloc_merged_buffer          \<comment> \<open>"Could not allocate merged buffer."\<close>
  | Read_zero_bytes              \<comment> \<open>"Cannot read zero bytes."\<close>
  | Read_past_EOF                \<comment> \<open>"Cannot read past EOF."\<close>
  | Seek_before_start            \<comment> \<open>"Cannot seek past beginning of file."\<close>
  | Invalid_whence               \<comment> \<open>"Invalid whence."\<close>
  | Seek_past_end                \<comment> \<open>"Cannot seek past end of file."\<close>
  | Invalid_range                \<comment> \<open>"Invalid range."\<close>
  | Alloc_range_buffer           \<comment> \<open>"Could not allocate new range buffer."\<close>
  | Alloc_range_data             \<comment> \<open>"Could not allocate new range data."\<close>
  | Realloc_split                \<comment> \<open>"Could not realloc split range data."\<close>
  | Realloc_reduced              \<comment> \<open>"Could not realloc reduced range data."\<close>
  | Resize_zero                  \<comment> \<open>"Cannot resize to zero size."\<close>
  | Invalid_reader_size          \<comment> \<open>"Invalid reader size."\<close>
  | Alloc_reader                 \<comment> \<open>"Could not allocate SBReader."\<close>

text \<open>
  The result of an operation that returns \<^verbatim>\<open>int\<close>: the value returned, the message
  written into the error buffer (\<open>None\<close> when nothing was written) and the reader as
  the call leaves it.
\<close>

type_synonym 'w result = "int \<times> sb_error option \<times> 'w SBReader"

text \<open>\<^verbatim>\<open>enum SBWhence\<close>; a C caller can pass any integer, which the \<^verbatim>\<open>default\<close> case rejects.\<close>

definition SB_SET :: int where "SB_SET = 0"
definition SB_CUR :: int where "SB_CUR = 1"
definition SB_END :: int where "SB_END = 2"

subsection \<open>The allocator\<close>

text \<open>
  The callbacks \<^verbatim>\<open>malloc\<close> and \<^verbatim>\<open>realloc\<close> of the reader may return \<^verbatim>\<open>NULL\<close> at any
  call. An operation is given the outcomes of its successive allocator calls, \<open>True\<close>
  for a block and \<open>False\<close> for \<^verbatim>\<open>NULL\<close>; when the list is used up every further call
  succeeds, so \<open>[]\<close> is the allocator that never fails.
\<close>

type_synonym allocator = "bool list"

definition alloc_ok :: "allocator \<Rightarrow> bool" where
  "alloc_ok al = (case al of [] \<Rightarrow> True | b # _ \<Rightarrow> b)"

definition alloc_next :: "allocator \<Rightarrow> allocator" where
  "alloc_next al = drop 1 al"

text \<open>
  \<^verbatim>\<open>memcpy(dst, src + off, n)\<close> as the bytes it copies. Reading past the end of the
  source block is undefined in C; the model copies the bytes that exist.
\<close>

definition memcpy :: "8 word list \<Rightarrow> nat \<Rightarrow> nat \<Rightarrow> 8 word list" where
  "memcpy src off n = take n (drop off src)"

subsection \<open>Util functions for ranges\<close>

text \<open>
  The search loops of \<^verbatim>\<open>range_remove\<close>, \<^verbatim>\<open>range_insert_before\<close> and
  \<^verbatim>\<open>range_insert_after\<close> walk the list from its head to the first node whose
  \<^verbatim>\<open>pos\<close> is the one asked for. \<open>None\<close>: no node has it, where the source fails its
  assertion (or reads through \<^verbatim>\<open>NULL\<close>).
\<close>

fun range_index :: "'w Range list \<Rightarrow> 'w \<Rightarrow> nat option" where
  "range_index [] p = None"
| "range_index (r # rs) p =
     (if range_pos r = p then Some 0 else map_option Suc (range_index rs p))"

definition range_remove :: "'w Range list \<Rightarrow> 'w \<Rightarrow> 'w Range list option" where
  "range_remove rs p =
     (case range_index rs p of
        None \<Rightarrow> None
      | Some j \<Rightarrow> Some (take j rs @ drop (Suc j) rs))"

definition range_insert_before :: "'w Range list \<Rightarrow> 'w Range \<Rightarrow> 'w \<Rightarrow> 'w Range list option" where
  "range_insert_before rs e p =
     (case range_index rs p of
        None \<Rightarrow> None
      | Some j \<Rightarrow> Some (take j rs @ e # drop j rs))"

definition range_insert_after :: "'w Range list \<Rightarrow> 'w Range \<Rightarrow> 'w \<Rightarrow> 'w Range list option" where
  "range_insert_after rs e p =
     (case range_index rs p of
        None \<Rightarrow> None
      | Some j \<Rightarrow> Some (take (Suc j) rs @ e # drop (Suc j) rs))"

definition range_insert_end :: "'w Range list \<Rightarrow> 'w Range \<Rightarrow> 'w Range list" where
  "range_insert_end rs e = rs @ [e]"

definition intersects :: "'a::len word Range \<Rightarrow> 'a word Range \<Rightarrow> bool" where
  "intersects a b =
     (\<not> (range_pos a + range_size a < range_pos b \<or> range_pos b + range_size b < range_pos a))"

definition contains :: "'a::len word Range \<Rightarrow> 'a word Range \<Rightarrow> bool" where
  "contains a b =
     (range_pos a \<le> range_pos b \<and> range_pos a + range_size a \<ge> range_pos b + range_size b)"

text \<open>
  \<^verbatim>\<open>merge\<close>: \<open>Not_merged\<close> is \<^verbatim>\<open>*merged = false\<close> with result 0, \<open>Merged ret\<close> is
  \<^verbatim>\<open>*merged = true\<close> with result 0 and \<^verbatim>\<open>*ret\<close> filled in, \<open>Merge_failed\<close> is the
  result -1. The allocator is called once, and only when the ranges intersect.
\<close>

datatype 'w merge_result = Merge_failed | Not_merged | Merged "'w Range"

definition merge ::
  "allocator \<Rightarrow> 'a::len word Range \<Rightarrow> 'a word Range \<Rightarrow> 'a word merge_result \<times> allocator"
where
  "merge al a b =
     (if \<not> intersects a b then (Not_merged, al)
      else if contains a b then
        (if \<not> alloc_ok al then (Merge_failed, alloc_next al)
         else (Merged \<lparr>range_pos = range_pos a, range_size = range_size a,
                       range_data = memcpy (range_data a) 0 (unat (range_size a))\<rparr>,
               alloc_next al))
      else if contains b a then
        (if \<not> alloc_ok al then (Merge_failed, alloc_next al)
         else (Merged \<lparr>range_pos = range_pos b, range_size = range_size b,
                       range_data = memcpy (range_data b) 0 (unat (range_size b))\<rparr>,
               alloc_next al))
      else
        let first = (if range_pos a \<le> range_pos b then a else b);
            second = (if range_pos a \<le> range_pos b then b else a);
            newsize = range_pos second + range_size second - range_pos first
        in if \<not> alloc_ok al then (Merge_failed, alloc_next al)
           else
             let buf =
                   (if range_pos a \<le> range_pos b then
                      memcpy (range_data first) 0 (unat (range_size first)) @
                      memcpy (range_data second)
                        (unat (range_pos first + range_size first - range_pos second))
                        (unat (range_size second -
                               (range_pos first + range_size first - range_pos second)))
                    else
                      memcpy (range_data first) 0 (unat (range_pos second - range_pos first)) @
                      memcpy (range_data second) 0 (unat (range_size second)))
             in (Merged \<lparr>range_pos = range_pos first, range_size = newsize, range_data = buf\<rparr>,
                 alloc_next al))"

subsection \<open>Construction and the small accessors\<close>

definition sb_new_reader_custom_alloc :: "allocator \<Rightarrow> 'a::len word \<Rightarrow> sb_error + 'a word SBReader" where
  "sb_new_reader_custom_alloc al sz =
     (if sz = 0 then Inl Invalid_reader_size
      else if \<not> alloc_ok al then Inl Alloc_reader
      else Inr \<lparr>reader_pos = 0, reader_size = sz, ranges = []\<rparr>)"

definition sb_clear :: "'w SBReader \<Rightarrow> 'w SBReader" where
  "sb_clear reader = reader\<lparr>ranges := []\<rparr>"

definition sb_bytes_left :: "'a::len word SBReader \<Rightarrow> 'a word" where
  "sb_bytes_left reader = reader_size reader - reader_pos reader"

definition sb_size :: "'a::len word SBReader \<Rightarrow> 'a word" where
  "sb_size reader = reader_size reader"

subsection \<open>Load range\<close>

text \<open>
  The first loop of \<^verbatim>\<open>sb_load_range\<close>: the new range \<open>r\<close> is merged with the first
  range of the list that it intersects, and the merged range takes that node's place.
  The result names the node (\<^verbatim>\<open>mrange\<close>) by its index.
\<close>

datatype 'w first_merge = First_failed | No_merge | First_merged nat "'w Range list" allocator

fun merge_first ::
  "allocator \<Rightarrow> 'a::len word Range \<Rightarrow> 'a word Range list \<Rightarrow> 'a word first_merge"
where
  "merge_first al r [] = No_merge"
| "merge_first al r (e # es) =
     (case merge al r e of
        (Merge_failed, al') \<Rightarrow> First_failed
      | (Merged mr, al') \<Rightarrow> First_merged 0 (mr # es) al'
      | (Not_merged, al') \<Rightarrow>
          (case merge_first al' r es of
             First_merged k es' al'' \<Rightarrow> First_merged (Suc k) (e # es') al''
           | First_failed \<Rightarrow> First_failed
           | No_merge \<Rightarrow> No_merge))"

text \<open>
  One turn of the \<^verbatim>\<open>while (mergeagain)\<close> loop: \<^verbatim>\<open>mrange\<close>, the node at index \<open>k\<close>,
  is merged with its successor if they intersect, and the successor is then removed by
  \<^verbatim>\<open>range_remove\<close>, which looks it up by its \<^verbatim>\<open>pos\<close>. A step returns, goes on, or
  aborts: the lookup can find no node, or find \<^verbatim>\<open>mrange\<close> itself, whose memory the
  source would then use after freeing it. \<open>merge_further\<close> is \<open>None\<close> when a step
  aborts or the loop does not end.
\<close>

datatype 'w step = Return "'w result" | Continue allocator "'w SBReader" nat | Abort

definition merge_step :: "allocator \<Rightarrow> 'a::len word SBReader \<Rightarrow> nat \<Rightarrow> 'a word step" where
  "merge_step al reader k =
     (let rs = ranges reader in
      if Suc k < length rs then
        (case merge al (rs ! k) (rs ! Suc k) of
           (Merge_failed, al') \<Rightarrow> Return (-1, Some Alloc_merged_buffer, reader)
         | (Not_merged, al') \<Rightarrow> Return (0, None, reader)
         | (Merged mr, al') \<Rightarrow>
             let rs1 = rs[k := mr] in
             (case range_index rs1 (range_pos (rs ! Suc k)) of
                None \<Rightarrow> Abort
              | Some j \<Rightarrow>
                  if j = k then Abort
                  else Continue al' (reader\<lparr>ranges := take j rs1 @ drop (Suc j) rs1\<rparr>)
                         (if j < k then k - 1 else k)))
      else Return (0, None, reader))"

partial_function (option) merge_further ::
  "allocator \<Rightarrow> 'a::len word SBReader \<Rightarrow> nat \<Rightarrow> 'a word result option"
where
  "merge_further al reader k =
     (case merge_step al reader k of
        Return res \<Rightarrow> Some res
      | Abort \<Rightarrow> None
      | Continue al' reader' k' \<Rightarrow> merge_further al' reader' k')"

declare merge_further.simps [code]

text \<open>
  \<^verbatim>\<open>sb_load_range\<close>. \<open>buf\<close> is the caller's payload and \<open>bufsize\<close> the length passed
  with it. \<open>None\<close>: the call does not return (an abort of \<open>merge_step\<close>, or a search
  of \<^verbatim>\<open>range_insert_before\<close> that finds no node).
\<close>

definition sb_load_range ::
  "allocator \<Rightarrow> 'a::len word SBReader \<Rightarrow> 'a word \<Rightarrow> 8 word list \<Rightarrow> 'a word \<Rightarrow> 'a word result option"
where
  "sb_load_range al reader pos buf bufsize =
     (if bufsize = 0 then Some (-1, Some Invalid_buffer_size, reader)
      else if reader_pos reader + bufsize > reader_size reader then
        Some (-1, Some Load_past_end, reader)
      else if \<not> alloc_ok al then Some (-1, Some Alloc_new_range, reader)
      else if \<not> alloc_ok (alloc_next al) then Some (-1, Some Alloc_entry_buffer, reader)
      else
        let r = \<lparr>range_pos = pos, range_size = bufsize,
                 range_data = memcpy buf 0 (unat bufsize)\<rparr>
        in if ranges reader = [] then Some (0, None, reader\<lparr>ranges := [r]\<rparr>)
           else
             (case merge_first (alloc_next (alloc_next al)) r (ranges reader) of
                First_failed \<Rightarrow> Some (-1, Some Alloc_merged_buffer, reader)
              | First_merged k rs al' \<Rightarrow> merge_further al' (reader\<lparr>ranges := rs\<rparr>) k
              | No_merge \<Rightarrow>
                  (case find (\<lambda>e. range_pos r < range_pos e) (ranges reader) of
                     None \<Rightarrow> Some (0, None, reader\<lparr>ranges := range_insert_end (ranges reader) r\<rparr>)
                   | Some e \<Rightarrow>
                       (case range_insert_before (ranges reader) r (range_pos e) of
                          None \<Rightarrow> None
                        | Some rs \<Rightarrow> Some (0, None, reader\<lparr>ranges := rs\<rparr>)))))"

subsection \<open>Read\<close>

text \<open>
  The \<^verbatim>\<open>for\<close> loop of \<^verbatim>\<open>sb_read\<close> over the ranges, on the locals \<^verbatim>\<open>off\<close> and
  \<^verbatim>\<open>rem\<close> and the bytes written so far: the destination is filled from its first byte
  on without gaps, so \<^verbatim>\<open>pos\<close> is the number of bytes written.
\<close>

fun read_loop ::
  "'a::len word Range list \<Rightarrow> 'a word \<Rightarrow> 'a word \<Rightarrow> 8 word list \<Rightarrow> 'a word \<times> 'a word \<times> 8 word list"
where
  "read_loop [] off rem out = (off, rem, out)"
| "read_loop (e # es) off rem out =
     (if range_pos e + range_size e < off then read_loop es off rem out
      else
        let zerosize =
              (if range_pos e > off then
                 (if range_pos e - off > rem then rem else range_pos e - off)
               else 0);
            out1 = out @ replicate (unat zerosize) 0;
            off1 = off + zerosize;
            rem1 = rem - zerosize
        in if rem1 = 0 then (off1, rem1, out1)
           else
             let copysize =
                   (if range_size e - (off1 - range_pos e) > rem1 then rem1
                    else range_size e - (off1 - range_pos e));
                 out2 = out1 @ memcpy (range_data e) (unat (off1 - range_pos e)) (unat copysize);
                 off2 = off1 + copysize;
                 rem2 = rem1 - copysize
             in if rem2 = 0 then (off2, rem2, out2) else read_loop es off2 rem2 out2)"

text \<open>
  \<^verbatim>\<open>sb_read\<close> returns its \<^verbatim>\<open>size_t\<close> result, the error message if any, the bytes it
  wrote into the destination, and the reader afterwards.
\<close>

definition sb_read ::
  "'a::len word SBReader \<Rightarrow> 'a word \<Rightarrow> 'a word \<times> sb_error option \<times> 8 word list \<times> 'a word SBReader"
where
  "sb_read reader sz =
     (if sz = 0 then (0, Some Read_zero_bytes, [], reader)
      else
        case read_loop (ranges reader) (reader_pos reader) sz [] of
          (off, rem, out) \<Rightarrow>
            let zerosize =
                  (if rem > 0 \<and> off < reader_size reader then
                     (if reader_size reader - off > rem then rem else reader_size reader - off)
                   else 0);
                out1 = out @ replicate (unat zerosize) 0;
                rem1 = rem - zerosize
            in if rem1 \<noteq> 0 then (0, Some Read_past_EOF, out1, reader)
               else (sz, None, out1, reader))"

subsection \<open>Seek\<close>

text \<open>
  \<^verbatim>\<open>sb_seek\<close> returns its \<^verbatim>\<open>int\<close> result, the error message if any, the value stored
  through \<^verbatim>\<open>pos\<close> if one was stored, and the reader afterwards. \<open>seek_to\<close> is the
  part after the \<^verbatim>\<open>switch\<close>.
\<close>

definition seek_to ::
  "'a::len word SBReader \<Rightarrow> 'a word \<Rightarrow> int \<times> sb_error option \<times> 'a word option \<times> 'a word SBReader"
where
  "seek_to reader realoffset =
     (if realoffset > reader_size reader then (-1, Some Seek_past_end, None, reader)
      else (0, None, Some realoffset, reader\<lparr>reader_pos := realoffset\<rparr>))"

definition sb_seek ::
  "'a::len word SBReader \<Rightarrow> 'a word \<Rightarrow> int \<Rightarrow> int \<times> sb_error option \<times> 'a word option \<times> 'a word SBReader"
where
  "sb_seek reader offset whence =
     (if whence = SB_SET then seek_to reader offset
      else if whence = SB_CUR then seek_to reader (offset + reader_pos reader)
      else if whence = SB_END then
        (if offset > reader_size reader then (-1, Some Seek_before_start, None, reader)
         else seek_to reader (reader_size reader - offset))
      else (-1, Some Invalid_whence, None, reader))"

subsection \<open>Remove range\<close>

text \<open>
  The body of the \<^verbatim>\<open>for\<close> loop of \<^verbatim>\<open>sb_remove_range\<close>, with \<^verbatim>\<open>e\<close> the node at
  index \<open>i\<close>. \<^verbatim>\<open>realloc\<close> to a smaller size keeps the leading bytes of the block.
  A step returns from the function, goes on with the node at another index, or aborts
  where the search of \<^verbatim>\<open>range_remove\<close> or \<^verbatim>\<open>range_insert_after\<close> finds no node.
  \<open>remove_loop\<close> is \<open>None\<close> when a step aborts or the loop does not end.
\<close>

definition remove_step ::
  "allocator \<Rightarrow> 'a::len word \<Rightarrow> 'a word \<Rightarrow> 'a word SBReader \<Rightarrow> nat \<Rightarrow> 'a word step"
where
  "remove_step al start end reader i =
     (let rs = ranges reader in
      if \<not> i < length rs then Return (0, None, reader)
      else
        let e = rs ! i;
            rngstart = range_pos e;
            rngend = range_pos e + range_size e - 1
        in if rngstart > end then Return (0, None, reader)
           else if rngend < start then Continue al reader (Suc i)
           else if rngstart \<ge> start \<and> rngend \<le> end then
             (case range_remove rs (range_pos e) of
                None \<Rightarrow> Abort
              | Some rs' \<Rightarrow> Continue al (reader\<lparr>ranges := rs'\<rparr>) i)
           else if rngend > end \<and> rngstart < start then
             (if \<not> alloc_ok al then Return (-1, Some Alloc_range_buffer, reader)
              else if \<not> alloc_ok (alloc_next al) then Return (-1, Some Alloc_range_data, reader)
              else
                let rng0 = \<lparr>range_pos = end + 1, range_size = rngend + 1 - (end + 1),
                            range_data = memcpy (range_data e) (unat (end + 1 - rngstart))
                                           (unat (rngend + 1 - (end + 1)))\<rparr>
                in case range_index rs (range_pos e) of
                     None \<Rightarrow> Abort
                   | Some j \<Rightarrow>
                       let rs1 = take (Suc j) rs @ rng0 # drop (Suc j) rs;
                           i1 = (if j < i then Suc i else i);
                           e1 = e\<lparr>range_size := start - range_pos e\<rparr>;
                           al2 = alloc_next (alloc_next al)
                       in if \<not> alloc_ok al2 then
                            Return (-1, Some Realloc_split, reader\<lparr>ranges := rs1[i1 := e1]\<rparr>)
                          else
                            Continue (alloc_next al2)
                              (reader\<lparr>ranges :=
                                 rs1[i1 := e1\<lparr>range_data :=
                                   memcpy (range_data e1) 0 (unat (range_size e1))\<rparr>]\<rparr>)
                              (j + 2))
           else
             let e1 = (if rngstart < start then e\<lparr>range_size := start - range_pos e\<rparr> else e) in
             if rngstart < start \<and> \<not> alloc_ok al then
               Return (-1, Some Realloc_reduced, reader\<lparr>ranges := rs[i := e1]\<rparr>)
             else
               let e2 = (if rngstart < start
                         then e1\<lparr>range_data := memcpy (range_data e1) 0 (unat (range_size e1))\<rparr>
                         else e1);
                   al1 = (if rngstart < start then alloc_next al else al)
               in if rngend > end then
                    let oldSize = range_size e2;
                        e3 = e2\<lparr>range_size := range_size e2 - (end + 1 - range_pos e2),
                                range_pos := end + 1\<rparr>
                    in if \<not> alloc_ok al1 then
                         Return (1, Some Alloc_range_data, reader\<lparr>ranges := rs[i := e3]\<rparr>)
                       else
                         Continue (alloc_next al1)
                           (reader\<lparr>ranges :=
                              rs[i := e3\<lparr>range_data :=
                                memcpy (range_data e2) (unat (oldSize - range_size e3))
                                  (unat (range_size e3))\<rparr>]\<rparr>)
                           (Suc i)
                  else Continue al1 (reader\<lparr>ranges := rs[i := e2]\<rparr>) (Suc i))"

partial_function (option) remove_loop ::
  "allocator \<Rightarrow> 'a::len word \<Rightarrow> 'a word \<Rightarrow> 'a word SBReader \<Rightarrow> nat \<Rightarrow> 'a word result option"
where
  "remove_loop al start end reader i =
     (case remove_step al start end reader i of
        Return res \<Rightarrow> Some res
      | Abort \<Rightarrow> None
      | Continue al' reader' i' \<Rightarrow> remove_loop al' start end reader' i')"

declare remove_loop.simps [code]

definition sb_remove_range ::
  "allocator \<Rightarrow> 'a::len word SBReader \<Rightarrow> 'a word \<Rightarrow> 'a word \<Rightarrow> 'a word result option"
where
  "sb_remove_range al reader start end =
     (if end \<ge> reader_size reader \<or> end < start then Some (-1, Some Invalid_range, reader)
      else remove_loop al start end reader 0)"

subsection \<open>Resize\<close>

definition sb_resize :: "allocator \<Rightarrow> 'a::len word SBReader \<Rightarrow> 'a word \<Rightarrow> 'a word result option" where
  "sb_resize al reader newsize =
     (if newsize = 0 then Some (-1, Some Resize_zero, reader)
      else if newsize < reader_size reader then
        (case sb_remove_range al reader newsize (reader_size reader - 1) of
           None \<Rightarrow> None
         | Some (ret, err, reader1) \<Rightarrow>
             if ret < 0 then Some (ret, err, reader1)
             else
               let reader2 = (if reader_pos reader1 > newsize
                              then reader1\<lparr>reader_pos := newsize\<rparr> else reader1)
               in Some (0, err, reader2\<lparr>reader_size := newsize\<rparr>))
      else Some (0, None, reader\<lparr>reader_size := newsize\<rparr>))"

section \<open>Specification-side notions\<close>

subsection \<open>Invariants and logical content\<close>

text \<open>
  The data-model invariants. \<open>range_end\<close> is the exact offset one past the last byte of
  a range. A range is well formed when its length is positive and its payload has
  exactly that many bytes; the ranges of a list are \<open>separated\<close> when each one ends
  strictly before the next begins, at least one unloaded byte between them. A reader
  satisfies \<open>reader_inv\<close> when its ranges are well formed, lie within the size and are
  separated, and the cursor is at most the size.
\<close>

definition range_end :: "'a::len word Range \<Rightarrow> nat" where
  "range_end r = unat (range_pos r) + unat (range_size r)"

definition range_ok :: "'a::len word Range \<Rightarrow> bool" where
  "range_ok r = (range_size r \<noteq> 0 \<and> length (range_data r) = unat (range_size r))"

fun separated :: "'a::len word Range list \<Rightarrow> bool" where
  "separated [] = True"
| "separated [a] = True"
| "separated (a # b # rs) = (range_end a < unat (range_pos b) \<and> separated (b # rs))"

definition ranges_within :: "nat \<Rightarrow> 'a::len word Range list \<Rightarrow> bool" where
  "ranges_within S rs = list_all (\<lambda>r. range_ok r \<and> range_end r \<le> S) rs"

definition reader_inv :: "'a::len word SBReader \<Rightarrow> bool" where
  "reader_inv reader =
     (ranges_within (unat (reader_size reader)) (ranges reader) \<and>
      separated (ranges reader) \<and>
      reader_pos reader \<le> reader_size reader)"

text \<open>
  The logical content of the buffer: \<open>loaded rs x\<close> is the payload byte at the absolute
  offset \<open>x\<close> when \<open>x\<close> lies inside a range of \<open>rs\<close>, and \<open>byte_at\<close> reads an
  unloaded offset as zero.
\<close>

fun loaded :: "'a::len word Range list \<Rightarrow> nat \<Rightarrow> 8 word option" where
  "loaded [] x = None"
| "loaded (r # rs) x =
     (if unat (range_pos r) \<le> x \<and> x < range_end r
      then Some (range_data r ! (x - unat (range_pos r)))
      else loaded rs x)"

definition byte_at :: "'a::len word Range list \<Rightarrow> nat \<Rightarrow> 8 word" where
  "byte_at rs x = (case loaded rs x of None \<Rightarrow> 0 | Some b \<Rightarrow> b)"

text \<open>
  A range whose payload has exactly \<^verbatim>\<open>size\<close> bytes and whose end offset is
  representable, so that \<^verbatim>\<open>pos + size\<close> does not wrap around.
\<close>

definition payload_ok :: "'a::len word Range \<Rightarrow> bool" where
  "payload_ok r = (length (range_data r) = unat (range_size r) \<and> range_end r < 2 ^ LENGTH('a))"

text \<open>The start offsets of a range list increase strictly, in the order of \<^verbatim>\<open>size_t\<close>.\<close>

definition pos_sorted :: "'a::len word Range list \<Rightarrow> bool" where
  "pos_sorted rs = sorted_wrt (<) (map range_pos rs)"

subsection \<open>Seek positions, the load bound and the effect of a removal on one range\<close>

text \<open>
  The position a seek aims at, in the words of the specification, as an integer: the
  offset itself for \<^verbatim>\<open>SB_SET\<close>, cursor plus offset for \<^verbatim>\<open>SB_CUR\<close>, and size minus
  offset, which may be negative, for \<^verbatim>\<open>SB_END\<close>.
\<close>

definition seek_position :: "'a::len word SBReader \<Rightarrow> 'a word \<Rightarrow> int \<Rightarrow> int" where
  "seek_position reader offset whence =
     (if whence = SB_SET then uint offset
      else if whence = SB_CUR then uint (reader_pos reader) + uint offset
      else uint (reader_size reader) - uint offset)"

text \<open>
  The same position with the cursor-relative sum reduced modulo \<open>2 ^ LENGTH('a)\<close>,
  the number of values of \<^verbatim>\<open>size_t\<close>.
\<close>

definition wrapped_position :: "'a::len word SBReader \<Rightarrow> 'a word \<Rightarrow> int \<Rightarrow> int" where
  "wrapped_position reader offset whence =
     (if whence = SB_CUR then seek_position reader offset whence mod 2 ^ LENGTH('a)
      else seek_position reader offset whence)"

text \<open>
  The bound that the specification puts on a load of \<open>bufsize\<close> bytes: cursor plus
  length, as a natural number.
\<close>

definition load_bound :: "'a::len word SBReader \<Rightarrow> 'a word \<Rightarrow> nat" where
  "load_bound reader bufsize = unat (reader_pos reader) + unat bufsize"

text \<open>
  What a removal of the inclusive interval \<open>[start, end]\<close> leaves of one range, in the
  words of the specification: a range that ends before \<open>start\<close> or starts after
  \<open>end\<close> is kept; a range inside the interval is deleted; a range that starts before
  \<open>start\<close> and ends after \<open>end\<close> is split into a left remainder up to \<open>start\<close> and
  a right remainder from \<open>end + 1\<close>, each with its slice of the payload, the right one
  next after the left one; a range that reaches over one boundary only keeps its prefix
  before \<open>start\<close> or its suffix after \<open>end\<close>.
\<close>

definition left_part :: "'a::len word \<Rightarrow> 'a word Range \<Rightarrow> 'a word Range" where
  "left_part start r =
     \<lparr>range_pos = range_pos r, range_size = start - range_pos r,
      range_data = take (unat start - unat (range_pos r)) (range_data r)\<rparr>"

definition right_part :: "'a::len word \<Rightarrow> 'a word Range \<Rightarrow> 'a word Range" where
  "right_part end r =
     \<lparr>range_pos = end + 1, range_size = range_pos r + range_size r - (end + 1),
      range_data = drop (unat end + 1 - unat (range_pos r)) (range_data r)\<rparr>"

definition cut :: "'a::len word \<Rightarrow> 'a word \<Rightarrow> 'a word Range \<Rightarrow> 'a word Range list" where
  "cut start end r =
     (if range_end r \<le> unat start \<or> unat end < unat (range_pos r) then [r]
      else if unat start \<le> unat (range_pos r) \<and> range_end r \<le> unat end + 1 then []
      else if unat (range_pos r) < unat start \<and> unat end + 1 < range_end r
        then [left_part start r, right_part end r]
      else if unat (range_pos r) < unat start then [left_part start r]
      else [right_part end r])"

text \<open>
  How a range lies with respect to the interval \<open>[start, end]\<close> of a removal, in the
  comparisons of \<^verbatim>\<open>sb_remove_range\<close>: it overlaps only the right boundary, or it ends
  before the interval.
\<close>

definition overlaps_right_only :: "'a::len word \<Rightarrow> 'a word \<Rightarrow> 'a word Range \<Rightarrow> bool" where
  "overlaps_right_only start end e =
     (start \<le> range_pos e \<and> range_pos e \<le> end \<and> end < range_pos e + range_size e - 1)"

definition ends_before :: "'a::len word \<Rightarrow> 'a word \<Rightarrow> 'a word Range \<Rightarrow> bool" where
  "ends_before start end e =
     (range_pos e \<le> end \<and> range_pos e + range_size e - 1 < start)"

subsection \<open>Example states\<close>

text \<open>A fresh reader of size 50, and a range of 10 bytes at offset 45.\<close>

definition small_reader :: "64 word SBReader" where
  "small_reader = \<lparr>reader_pos = 0, reader_size = 50, ranges = []\<rparr>"

definition outside_range :: "64 word Range" where
  "outside_range = \<lparr>range_pos = 45, range_size = 10, range_data = [1, 2, 3, 4, 5, 6, 7, 8, 9, 10]\<rparr>"

text \<open>A reader with one loaded range, the cursor one byte before it.\<close>

definition read_reader :: "64 word SBReader" where
  "read_reader = \<lparr>reader_pos = 1, reader_size = 8,
     ranges = [\<lparr>range_pos = 2, range_size = 3, range_data = [7, 8, 9]\<rparr>]\<rparr>"

text \<open>
  A newly inserted range, an existing range that starts later and overlaps it, and
  what \<^verbatim>\<open>merge\<close> makes of them.
\<close>

definition merge_new :: "64 word Range" where
  "merge_new = \<lparr>range_pos = 0, range_size = 4, range_data = [10, 11, 12, 13]\<rparr>"

definition merge_old :: "64 word Range" where
  "merge_old = \<lparr>range_pos = 2, range_size = 4, range_data = [20, 21, 22, 23]\<rparr>"

definition merge_both :: "64 word Range" where
  "merge_both = \<lparr>range_pos = 0, range_size = 6, range_data = [10, 11, 12, 13, 22, 23]\<rparr>"

text \<open>A reader with one range and the cursor five bytes before the end.\<close>

definition load_reader :: "64 word SBReader" where
  "load_reader = \<lparr>reader_pos = 45, reader_size = 50,
     ranges = [\<lparr>range_pos = 20, range_size = 2, range_data = [1, 2]\<rparr>]\<rparr>"

text \<open>A reader with two loaded ranges.\<close>

definition remove_reader :: "64 word SBReader" where
  "remove_reader = \<lparr>reader_pos = 0, reader_size = 20,
     ranges = [\<lparr>range_pos = 2, range_size = 3, range_data = [1, 2, 3]\<rparr>,
               \<lparr>range_pos = 8, range_size = 6, range_data = [4, 5, 6, 7, 8, 9]\<rparr>]\<rparr>"

text \<open>A reader whose only range reaches past the end of the buffer.\<close>

definition tail_reader :: "64 word SBReader" where
  "tail_reader = \<lparr>reader_pos = 0, reader_size = 50,
     ranges = [\<lparr>range_pos = 48, range_size = 10, range_data = [1, 2, 3, 4, 5, 6, 7, 8, 9, 10]\<rparr>]\<rparr>"

text \<open>
  A reader of the largest size a 64-bit \<^verbatim>\<open>size_t\<close> holds, with the cursor five bytes
  before the end.
\<close>

definition end_reader :: "64 word SBReader" where
  "end_reader = \<lparr>reader_pos = 18446744073709551610, reader_size = 18446744073709551615,
     ranges = []\<rparr>"

section \<open>Properties\<close>

subsection \<open>Seek\<close>

lemma whence_distinct: "SB_SET \<noteq> SB_CUR" "SB_SET \<noteq> SB_END" "SB_CUR \<noteq> SB_END"
  by (simp_all add: SB_SET_def SB_CUR_def SB_END_def)

lemma seek_to_int:
  "seek_to reader w =
     (if uint w \<le> uint (reader_size reader)
      then (0, None, Some w, reader\<lparr>reader_pos := w\<rparr>)
      else (-1, Some Seek_past_end, None, reader))"
  by (simp add: seek_to_def word_less_def not_less word_le_def)

lemma wrapped_position_uint:
  fixes reader :: "'a::len word SBReader"
  shows "wrapped_position reader offset whence =
     (if whence = SB_SET then uint offset
      else if whence = SB_CUR then uint (offset + reader_pos reader)
      else uint (reader_size reader) - uint offset)"
  using whence_distinct
  by (simp add: wrapped_position_def seek_position_def uint_word_ariths add.commute)

text \<open>
  Claim C6, as amended. For each of the three modes, \<^verbatim>\<open>sb_seek\<close> succeeds exactly when
  the position it computes lies in \<open>[0, size]\<close>, where that position is the offset
  itself, cursor plus offset modulo \<open>2 ^ LENGTH('a)\<close>, or size minus offset
  (\<open>wrapped_position\<close>); it then stores that position in the cursor and returns it
  through \<^verbatim>\<open>pos\<close>. Otherwise it returns -1 with a message and leaves the reader as it
  was; an end-relative offset beyond the size is such a case. Whenever cursor plus
  offset is below \<open>2 ^ LENGTH('a)\<close>, the position is the one the specification names
  (\<open>seek_position\<close>). Seeking to offset 0 from the end yields the size.
\<close>

theorem sb_seek_contract:
  fixes reader :: "'a::len word SBReader"
  assumes "whence = SB_SET \<or> whence = SB_CUR \<or> whence = SB_END"
  shows "sb_seek reader offset whence =
           (if 0 \<le> wrapped_position reader offset whence \<and>
               wrapped_position reader offset whence \<le> uint (reader_size reader)
            then (0, None, Some (word_of_int (wrapped_position reader offset whence)),
                  reader\<lparr>reader_pos := word_of_int (wrapped_position reader offset whence)\<rparr>)
            else (-1, Some (if whence = SB_END \<and> reader_size reader < offset
                            then Seek_before_start else Seek_past_end), None, reader))
         \<and> (seek_position reader offset whence < 2 ^ LENGTH('a) \<longrightarrow>
              wrapped_position reader offset whence = seek_position reader offset whence)
         \<and> sb_seek reader 0 SB_END =
             (0, None, Some (reader_size reader), reader\<lparr>reader_pos := reader_size reader\<rparr>)"
proof -
  have zero: "sb_seek reader 0 SB_END =
      (0, None, Some (reader_size reader), reader\<lparr>reader_pos := reader_size reader\<rparr>)"
    using whence_distinct by (simp add: sb_seek_def seek_to_def)
  have fits: "seek_position reader offset whence < 2 ^ LENGTH('a) \<longrightarrow>
      wrapped_position reader offset whence = seek_position reader offset whence"
  proof
    assume lt: "seek_position reader offset whence < 2 ^ LENGTH('a)"
    show "wrapped_position reader offset whence = seek_position reader offset whence"
    proof (cases "whence = SB_CUR")
      case True
      then have "0 \<le> seek_position reader offset whence"
        using whence_distinct by (simp add: seek_position_def)
      with lt True show ?thesis by (simp add: wrapped_position_def)
    next
      case False
      then show ?thesis by (simp add: wrapped_position_def)
    qed
  qed
  have main: "sb_seek reader offset whence =
           (if 0 \<le> wrapped_position reader offset whence \<and>
               wrapped_position reader offset whence \<le> uint (reader_size reader)
            then (0, None, Some (word_of_int (wrapped_position reader offset whence)),
                  reader\<lparr>reader_pos := word_of_int (wrapped_position reader offset whence)\<rparr>)
            else (-1, Some (if whence = SB_END \<and> reader_size reader < offset
                            then Seek_before_start else Seek_past_end), None, reader))"
  proof -
    consider (c_set) "whence = SB_SET" | (c_cur) "whence = SB_CUR" | (c_end) "whence = SB_END"
      using assms by blast
    then show ?thesis
    proof cases
      case c_set
      then show ?thesis
        using whence_distinct by (simp add: sb_seek_def seek_to_int wrapped_position_uint)
    next
      case c_cur
      then show ?thesis
        using whence_distinct by (simp add: sb_seek_def seek_to_int wrapped_position_uint)
    next
      case c_end
      show ?thesis
      proof (cases "reader_size reader < offset")
        case True
        then have "uint (reader_size reader) < uint offset" by (simp add: word_less_def)
        with True c_end show ?thesis
          using whence_distinct by (simp add: sb_seek_def wrapped_position_uint)
      next
        case False
        then have le: "uint offset \<le> uint (reader_size reader)"
          by (simp add: word_less_def not_less)
        then have sub: "uint (reader_size reader - offset) = uint (reader_size reader) - uint offset"
          by (simp add: uint_sub_lem [THEN iffD1] word_le_def)
        have w: "word_of_int (uint (reader_size reader) - uint offset) = reader_size reader - offset"
          by simp
        from False le c_end show ?thesis
          using whence_distinct
          by (simp add: sb_seek_def seek_to_int wrapped_position_uint sub)
      qed
    qed
  qed
  show ?thesis by (rule conjI [OF main conjI [OF fits zero]])
qed

theorem sb_seek_contract_witness:
  "(SB_CUR = SB_SET \<or> SB_CUR = SB_CUR \<or> SB_CUR = SB_END) \<and>
   seek_position \<lparr>reader_pos = 5, reader_size = 50 :: 64 word, ranges = []\<rparr> 7 SB_CUR
     < 2 ^ LENGTH(64) \<and>
   wrapped_position \<lparr>reader_pos = 5, reader_size = 50 :: 64 word, ranges = []\<rparr> 7 SB_CUR = 12 \<and>
   sb_seek \<lparr>reader_pos = 5, reader_size = 50 :: 64 word, ranges = []\<rparr> 7 SB_CUR =
     (0, None, Some 12, \<lparr>reader_pos = 12, reader_size = 50, ranges = []\<rparr>) \<and>
   sb_seek \<lparr>reader_pos = 5, reader_size = 50 :: 64 word, ranges = []\<rparr> 51 SB_END =
     (-1, Some Seek_before_start, None, \<lparr>reader_pos = 5, reader_size = 50, ranges = []\<rparr>)"
proof -
  have h: "SB_CUR = SB_SET \<or> SB_CUR = SB_CUR \<or> SB_CUR = SB_END" by simp
  have h2: "SB_END = SB_SET \<or> SB_END = SB_CUR \<or> SB_END = SB_END" by simp
  have p: "seek_position \<lparr>reader_pos = 5, reader_size = 50 :: 64 word, ranges = []\<rparr> 7 SB_CUR = 12"
    using whence_distinct by (simp add: seek_position_def)
  show ?thesis
    using sb_seek_contract [OF h, of "\<lparr>reader_pos = 5, reader_size = 50 :: 64 word, ranges = []\<rparr>" 7]
      sb_seek_contract [OF h2, of "\<lparr>reader_pos = 5, reader_size = 50 :: 64 word, ranges = []\<rparr>" 51]
    using whence_distinct
    by (simp add: p wrapped_position_uint)
qed

text \<open>
  Claim C6 as stated fails where cursor plus offset reaches \<open>2 ^ 64\<close>: with
  the cursor at 5 in a buffer of size 50, the cursor-relative offset \<open>2 ^ 64 - 3\<close>
  gives the position \<open>2 ^ 64 + 2\<close>, beyond the size, and \<^verbatim>\<open>sb_seek\<close> returns 0
  with the cursor at 2.
\<close>

theorem sb_seek_cur_counterexample:
  "seek_position \<lparr>reader_pos = 5, reader_size = 50 :: 64 word, ranges = []\<rparr>
      18446744073709551613 SB_CUR = 18446744073709551618 \<and>
   uint (reader_size \<lparr>reader_pos = 5, reader_size = 50 :: 64 word, ranges = []\<rparr>)
     < seek_position \<lparr>reader_pos = 5, reader_size = 50 :: 64 word, ranges = []\<rparr>
         18446744073709551613 SB_CUR \<and>
   sb_seek \<lparr>reader_pos = 5, reader_size = 50 :: 64 word, ranges = []\<rparr>
      18446744073709551613 SB_CUR =
     (0, None, Some 2, \<lparr>reader_pos = 2, reader_size = 50, ranges = []\<rparr>)"
proof -
  have w: "(18446744073709551618 :: 64 word) = 2" by (simp add: word_unat_eq_iff)
  show ?thesis
    using whence_distinct
    by (simp add: seek_position_def sb_seek_def seek_to_def w)
qed

text \<open>
  Claim C10. In the cursor-relative mode the target is the sum of offset and cursor
  modulo \<open>2 ^ LENGTH('a)\<close>, the width of \<^verbatim>\<open>size_t\<close>. Whenever the exact sum reaches
  \<open>2 ^ LENGTH('a)\<close> and the wrapped value is at most the size, the seek succeeds and the
  cursor becomes the wrapped value.
\<close>

theorem sb_seek_cur_wraps:
  fixes reader :: "'a::len word SBReader"
  shows "unat (offset + reader_pos reader) =
           (unat offset + unat (reader_pos reader)) mod 2 ^ LENGTH('a) \<and>
         sb_seek reader offset SB_CUR = seek_to reader (offset + reader_pos reader) \<and>
         (2 ^ LENGTH('a) \<le> unat offset + unat (reader_pos reader) \<and>
          unat (offset + reader_pos reader) \<le> unat (reader_size reader) \<longrightarrow>
          sb_seek reader offset SB_CUR =
            (0, None, Some (offset + reader_pos reader),
             reader\<lparr>reader_pos := offset + reader_pos reader\<rparr>))"
  using whence_distinct
  by (simp add: sb_seek_def seek_to_def unat_word_ariths word_less_nat_alt not_less)

theorem sb_seek_cur_wraps_witness:
  "(2::nat) ^ LENGTH(8) \<le> unat (253 :: 8 word) + unat (5 :: 8 word) \<and>
   unat (253 + 5 :: 8 word) \<le> unat (50 :: 8 word) \<and>
   sb_seek \<lparr>reader_pos = 5, reader_size = 50 :: 8 word, ranges = []\<rparr> 253 SB_CUR =
     (0, None, Some 2, \<lparr>reader_pos = 2, reader_size = 50, ranges = []\<rparr>)"
proof -
  have w: "(258 :: 8 word) = 2" by (simp add: word_unat_eq_iff)
  show ?thesis
    using sb_seek_cur_wraps [of 253 "\<lparr>reader_pos = 5, reader_size = 50 :: 8 word, ranges = []\<rparr>"]
    by (auto simp: w)
qed

subsection \<open>Read\<close>



subsection \<open>Allocation failure in remove\<close>

lemma remove_step_before:
  assumes "i < length (ranges reader)" "ends_before start end (ranges reader ! i)"
  shows "remove_step al start end reader i = Continue al reader (Suc i)"
  using assms by (simp add: remove_step_def Let_def ends_before_def not_less)

lemma remove_loop_skip:
  assumes "\<forall>j<n. ends_before start end (ranges reader ! j)" "n \<le> length (ranges reader)" "i \<le> n"
  shows "remove_loop al start end reader i = remove_loop al start end reader n"
  using assms(3)
proof (induction "n - i" arbitrary: i)
  case 0
  then show ?case by simp
next
  case (Suc d)
  then have lt: "i < n" by linarith
  with assms have "remove_step al start end reader i = Continue al reader (Suc i)"
    by (intro remove_step_before) auto
  then have "remove_loop al start end reader i = remove_loop al start end reader (Suc i)"
    by (subst remove_loop.simps) simp
  also have "\<dots> = remove_loop al start end reader n"
    using Suc lt by (intro Suc.hyps) auto
  finally show ?case .
qed

lemma remove_step_right_fail:
  assumes "i < length (ranges reader)" "overlaps_right_only start end (ranges reader ! i)"
    "\<not> alloc_ok al"
  shows "remove_step al start end reader i =
           Return (1, Some Alloc_range_data,
             reader\<lparr>ranges := (ranges reader)[i := (ranges reader ! i)
                \<lparr>range_size := range_size (ranges reader ! i) - (end + 1 - range_pos (ranges reader ! i)),
                 range_pos := end + 1\<rparr>]\<rparr>)"
  using assms by (auto simp add: remove_step_def Let_def overlaps_right_only_def not_less)

lemma remove_step_returns:
  assumes "remove_step al start end reader i = Return (ret, err, reader')"
  shows "(ret = 0 \<and> err = None \<and> reader' = reader) \<or>
         (ret = -1 \<and> err \<in> {Some Alloc_range_buffer, Some Alloc_range_data, Some Realloc_split, Some Realloc_reduced}
            \<and> \<not> (i < length (ranges reader) \<and> overlaps_right_only start end (ranges reader ! i) \<and> \<not> alloc_ok al)) \<or>
         (ret = 1 \<and> err = Some Alloc_range_data \<and> i < length (ranges reader) \<and>
            overlaps_right_only start end (ranges reader ! i) \<and> \<not> alloc_ok al)"
  using assms
  by (auto simp add: remove_step_def Let_def overlaps_right_only_def not_less not_le
      split: if_splits option.splits)


lemma remove_loop_ret:
  assumes "remove_loop al start end reader i = Some res"
  shows "(fst res = 0 \<and> fst (snd res) = None) \<or> (fst res = -1 \<and> fst (snd res) \<noteq> None) \<or>
         (fst res = 1 \<and> fst (snd res) = Some Alloc_range_data)"
proof (rule remove_loop.raw_induct [where P = "\<lambda>al start end reader i res.
         (fst res = 0 \<and> fst (snd res) = None) \<or> (fst res = -1 \<and> fst (snd res) \<noteq> None) \<or>
         (fst res = 1 \<and> fst (snd res) = Some Alloc_range_data)", OF _ assms])
  fix loop :: "allocator \<Rightarrow> 'a word \<Rightarrow> 'a word \<Rightarrow> 'a word SBReader \<Rightarrow> nat \<Rightarrow> 'a word result option"
  fix al start e reader i and res :: "'a word result"
  assume IH: "\<And>al start e reader i res. loop al start e reader i = Some res \<Longrightarrow>
         (fst res = 0 \<and> fst (snd res) = None) \<or> (fst res = -1 \<and> fst (snd res) \<noteq> None) \<or>
         (fst res = 1 \<and> fst (snd res) = Some Alloc_range_data)"
  assume st: "(case remove_step al start e reader i of Return res \<Rightarrow> Some res
      | Continue al' reader' i' \<Rightarrow> loop al' start e reader' i'
      | Abort \<Rightarrow> None) = Some res"
  show "(fst res = 0 \<and> fst (snd res) = None) \<or> (fst res = -1 \<and> fst (snd res) \<noteq> None) \<or>
         (fst res = 1 \<and> fst (snd res) = Some Alloc_range_data)"
  proof (cases "remove_step al start e reader i")
    case (Return r)
    with st have "remove_step al start e reader i = Return (fst res, fst (snd res), snd (snd res))"
      by simp
    from remove_step_returns [OF this] show ?thesis by auto
  next
    case (Continue al' rd' i')
    with st have "loop al' start e rd' i' = Some res" by simp
    then show ?thesis by (rule IH)
  next
    case Abort
    with st show ?thesis by simp
  qed
qed

text \<open>
  Claim C9. When the allocation of the replacement payload fails for a range that
  overlaps only the right boundary of the removal interval, \<^verbatim>\<open>sb_remove_range\<close> returns
  1. Every other return of the loop body with an error message returns -1, and the
  results of \<^verbatim>\<open>sb_remove_range\<close> are 0 without a message, -1 with one, or this 1.
  \<^verbatim>\<open>sb_resize\<close>, which tests \<^verbatim>\<open>ret < 0\<close>, then returns 0 and stores the new size
  although the truncation failed.
\<close>

theorem remove_range_tail_alloc_failure:
  fixes reader :: "'a::len word SBReader"
  assumes "n < length (ranges reader)"
    and "\<forall>j<n. ends_before start end (ranges reader ! j)"
    and "overlaps_right_only start end (ranges reader ! n)"
    and "\<not> alloc_ok al"
    and "end < reader_size reader" and "start \<le> end"
  shows "sb_remove_range al reader start end =
           Some (1, Some Alloc_range_data,
             reader\<lparr>ranges := (ranges reader)[n := (ranges reader ! n)
                \<lparr>range_size := range_size (ranges reader ! n) - (end + 1 - range_pos (ranges reader ! n)),
                 range_pos := end + 1\<rparr>]\<rparr>)
         \<and> (\<forall>al' s e (rd :: 'a word SBReader) i ret err rd'.
               remove_step al' s e rd i = Return (ret, Some err, rd') \<and> ret \<noteq> -1 \<longrightarrow>
               ret = 1 \<and> err = Alloc_range_data \<and> i < length (ranges rd) \<and>
               overlaps_right_only s e (ranges rd ! i) \<and> \<not> alloc_ok al')
         \<and> (\<forall>al' s e (rd :: 'a word SBReader) ret err rd'.
               sb_remove_range al' rd s e = Some (ret, err, rd') \<longrightarrow>
               (ret = 0 \<and> err = None) \<or> (ret = -1 \<and> err \<noteq> None) \<or>
               (ret = 1 \<and> err = Some Alloc_range_data))
         \<and> (start \<noteq> 0 \<and> end = reader_size reader - 1 \<longrightarrow>
              sb_resize al reader start =
                Some (0, Some Alloc_range_data,
                  reader\<lparr>ranges := (ranges reader)[n := (ranges reader ! n)
                     \<lparr>range_size := range_size (ranges reader ! n) - (end + 1 - range_pos (ranges reader ! n)),
                      range_pos := end + 1\<rparr>],
                    reader_pos := (if start < reader_pos reader then start else reader_pos reader),
                    reader_size := start\<rparr>))"
proof -
  let ?rd = "reader\<lparr>ranges := (ranges reader)[n := (ranges reader ! n)
                \<lparr>range_size := range_size (ranges reader ! n) - (end + 1 - range_pos (ranges reader ! n)),
                 range_pos := end + 1\<rparr>]\<rparr>"
  have "remove_loop al start end reader 0 = remove_loop al start end reader n"
    using assms(1,2) by (intro remove_loop_skip) auto
  also have "\<dots> = Some (1, Some Alloc_range_data, ?rd)"
    using remove_step_right_fail [OF assms(1,3,4)] by (subst remove_loop.simps) simp
  finally have A: "sb_remove_range al reader start end = Some (1, Some Alloc_range_data, ?rd)"
    using assms(5,6) by (simp add: sb_remove_range_def not_le not_less)
  have B: "\<forall>al' s e (rd :: 'a word SBReader) i ret err rd'.
               remove_step al' s e rd i = Return (ret, Some err, rd') \<and> ret \<noteq> -1 \<longrightarrow>
               ret = 1 \<and> err = Alloc_range_data \<and> i < length (ranges rd) \<and>
               overlaps_right_only s e (ranges rd ! i) \<and> \<not> alloc_ok al'"
    using remove_step_returns by blast
  have C: "\<forall>al' s e (rd :: 'a word SBReader) ret err rd'.
               sb_remove_range al' rd s e = Some (ret, err, rd') \<longrightarrow>
               (ret = 0 \<and> err = None) \<or> (ret = -1 \<and> err \<noteq> None) \<or>
               (ret = 1 \<and> err = Some Alloc_range_data)"
  proof (intro allI impI)
    fix al' s e and rd :: "'a word SBReader" and ret err rd'
    assume r: "sb_remove_range al' rd s e = Some (ret, err, rd')"
    show "(ret = 0 \<and> err = None) \<or> (ret = -1 \<and> err \<noteq> None) \<or>
               (ret = 1 \<and> err = Some Alloc_range_data)"
    proof (cases "e \<ge> reader_size rd \<or> e < s")
      case True
      with r show ?thesis by (auto simp add: sb_remove_range_def)
    next
      case False
      with r have "remove_loop al' s e rd 0 = Some (ret, err, rd')"
        by (simp add: sb_remove_range_def)
      from remove_loop_ret [OF this] show ?thesis by simp
    qed
  qed
  have D: "start \<noteq> 0 \<and> end = reader_size reader - 1 \<longrightarrow>
              sb_resize al reader start =
                Some (0, Some Alloc_range_data,
                  ?rd\<lparr>reader_pos := (if start < reader_pos reader then start else reader_pos reader),
                    reader_size := start\<rparr>)"
  proof (intro impI, elim conjE)
    assume s0: "start \<noteq> 0" and e: "end = reader_size reader - 1"
    from assms(5,6) have "start < reader_size reader" by simp
    with s0 e A show "sb_resize al reader start =
                Some (0, Some Alloc_range_data,
                  ?rd\<lparr>reader_pos := (if start < reader_pos reader then start else reader_pos reader),
                    reader_size := start\<rparr>)"
      by (simp add: sb_resize_def)
  qed
  show ?thesis by (rule conjI [OF A conjI [OF B conjI [OF C D]]])
qed

theorem remove_range_tail_alloc_failure_witness:
  "sb_load_range [] \<lparr>reader_pos = 0, reader_size = 50 :: 64 word, ranges = []\<rparr> 48
       [1, 2, 3, 4, 5, 6, 7, 8, 9, 10] 10 = Some (0, None, tail_reader) \<and>
   sb_remove_range [False] tail_reader 40 49 =
     Some (1, Some Alloc_range_data, \<lparr>reader_pos = 0, reader_size = 50,
       ranges = [\<lparr>range_pos = 50, range_size = 8, range_data = [1, 2, 3, 4, 5, 6, 7, 8, 9, 10]\<rparr>]\<rparr>) \<and>
   sb_resize [False] tail_reader 40 =
     Some (0, Some Alloc_range_data, \<lparr>reader_pos = 0, reader_size = 40,
       ranges = [\<lparr>range_pos = 50, range_size = 8, range_data = [1, 2, 3, 4, 5, 6, 7, 8, 9, 10]\<rparr>]\<rparr>)"
proof -
  have h1: "0 < length (ranges tail_reader)" by (simp add: tail_reader_def)
  have h2: "\<forall>j<0. ends_before 40 49 (ranges tail_reader ! j)" by simp
  have h3: "overlaps_right_only 40 49 (ranges tail_reader ! 0)"
    by (simp add: tail_reader_def overlaps_right_only_def)
  have h4: "\<not> alloc_ok [False]" by (simp add: alloc_ok_def)
  have h5: "(49 :: 64 word) < reader_size tail_reader" by (simp add: tail_reader_def)
  have h6: "(40 :: 64 word) \<le> 49" by simp
  have ld: "sb_load_range [] \<lparr>reader_pos = 0, reader_size = 50 :: 64 word, ranges = []\<rparr> 48
       [1, 2, 3, 4, 5, 6, 7, 8, 9, 10] 10 = Some (0, None, tail_reader)"
    by (simp add: sb_load_range_def alloc_ok_def alloc_next_def memcpy_def tail_reader_def)
  from remove_range_tail_alloc_failure [OF h1 h2 h3 h4 h5 h6] ld
  show ?thesis by (simp add: tail_reader_def)
qed

subsection \<open>The read contract\<close>

lemma byte_at_Cons_out:
  "\<not> (unat (range_pos e) \<le> x \<and> x < range_end e) \<Longrightarrow> byte_at (e # es) x = byte_at es x"
  by (auto simp add: byte_at_def)

lemma byte_at_Cons_in:
  "unat (range_pos e) \<le> x \<Longrightarrow> x < range_end e \<Longrightarrow>
   byte_at (e # es) x = range_data e ! (x - unat (range_pos e))"
  by (simp add: byte_at_def)

lemma loaded_below:
  "\<forall>r\<in>set es. x < unat (range_pos r) \<Longrightarrow> loaded es x = None"
  by (induction es) auto

lemma loaded_above:
  "\<forall>r\<in>set es. range_end r \<le> x \<Longrightarrow> loaded es x = None"
  by (induction es) auto

lemma range_end_ge: "unat (range_pos r) \<le> range_end r"
  by (simp add: range_end_def)

lemma separated_tail: "separated (e # es) \<Longrightarrow> separated es"
  by (cases es) auto

lemma separated_Cons:
  "separated (e # es) \<Longrightarrow> r \<in> set es \<Longrightarrow> range_end e < unat (range_pos r)"
proof (induction es arbitrary: e)
  case Nil
  then show ?case by simp
next
  case (Cons a es)
  show ?case
  proof (cases "r = a")
    case True
    with Cons.prems show ?thesis by simp
  next
    case False
    with Cons.prems have "r \<in> set es" by simp
    moreover from Cons.prems have "separated (a # es)" by simp
    ultimately have "range_end a < unat (range_pos r)" by (rule Cons.IH [rotated])
    moreover from Cons.prems have "range_end e < unat (range_pos a)" by simp
    ultimately show ?thesis using range_end_ge [of a] by linarith
  qed
qed

lemma map_upt_append:
  "a \<le> b \<Longrightarrow> b \<le> c \<Longrightarrow> map f [a..<b] @ map f [b..<c] = map f [a..<c]"
  by (metis le_Suc_ex map_append upt_add_eq_append)

lemma memcpy_nth:
  "off + n \<le> length src \<Longrightarrow> memcpy src off n = map (\<lambda>x. src ! (x - p)) [p + off..<p + off + n]"
  by (auto simp add: memcpy_def list_eq_iff_nth_eq)


lemma ranges_within_Cons:
  "ranges_within S (e # es) = (range_ok e \<and> range_end e \<le> S \<and> ranges_within S es)"
  by (simp add: ranges_within_def)

lemma read_loop_inv:
  fixes es :: "'a::len word Range list"
  assumes "separated es" "ranges_within S es" "S < 2 ^ LENGTH('a)" "unat off \<le> S"
  shows "case read_loop es off rem out of (off', rem', out') \<Rightarrow>
           unat off \<le> unat off' \<and> unat off' \<le> S \<and>
           unat off' + unat rem' = unat off + unat rem \<and>
           out' = out @ map (byte_at es) [unat off..<unat off'] \<and>
           (rem' \<noteq> 0 \<longrightarrow> (\<forall>r\<in>set es. range_end r \<le> unat off'))"
  using assms(1,2,4)
proof (induction es arbitrary: off rem out)
  case Nil
  then show ?case by simp
next
  case (Cons e es)
  define P where "P = unat (range_pos e)"
  define Z where "Z = unat (range_size e)"
  define F where "F = unat off"
  define R where "R = unat rem"
  from Cons.prems have len: "length (range_data e) = Z" and pzS: "P + Z \<le> S"
    and within: "ranges_within S es" and sep: "separated es"
    by (auto simp add: ranges_within_Cons range_ok_def range_end_def P_def Z_def dest: separated_tail)
  have re: "range_end e = P + Z" by (simp add: range_end_def P_def Z_def)
  from pzS assms(3) have pz: "unat (range_pos e + range_size e) = P + Z"
    unfolding P_def Z_def by (simp add: unat_add_lem [THEN iffD1])
  have later: "\<forall>r\<in>set es. P + Z < unat (range_pos r)"
    using separated_Cons [OF Cons.prems(1)] re by auto
  have FS: "F \<le> S" using Cons.prems(3) by (simp add: F_def)
  show ?case
  proof (cases "range_pos e + range_size e < off")
    case True
    then have lt: "P + Z < F" by (simp add: word_less_nat_alt pz F_def)
    have eq: "read_loop (e # es) off rem out = read_loop es off rem out"
      using True by simp
    obtain off' rem' out' where rl: "read_loop es off rem out = (off', rem', out')"
      by (cases "read_loop es off rem out") auto
    from Cons.IH [OF sep within Cons.prems(3), of rem out] rl
    have ih: "unat off \<le> unat off'" "unat off' \<le> S" "unat off' + unat rem' = unat off + unat rem"
      "out' = out @ map (byte_at es) [unat off..<unat off']"
      "rem' \<noteq> 0 \<longrightarrow> (\<forall>r\<in>set es. range_end r \<le> unat off')"
      by auto
    have "map (byte_at (e # es)) [unat off..<unat off'] = map (byte_at es) [unat off..<unat off']"
      using lt re by (intro map_cong refl byte_at_Cons_out) (auto simp add: F_def)
    moreover have "range_end e \<le> unat off'" using lt re ih(1) by (simp add: F_def)
    ultimately show ?thesis using ih by (simp add: eq rl del: read_loop.simps)
  next
    case False
    then have ge: "F \<le> P + Z" by (simp add: word_less_nat_alt pz F_def not_less)
    define zerosize where "zerosize =
              (if range_pos e > off then
                 (if range_pos e - off > rem then rem else range_pos e - off)
               else 0)"
    define off1 where "off1 = off + zerosize"
    define rem1 where "rem1 = rem - zerosize"
    define out1 where "out1 = out @ replicate (unat zerosize) 0"
    define copysize where "copysize =
                   (if range_size e - (off1 - range_pos e) > rem1 then rem1
                    else range_size e - (off1 - range_pos e))"
    define off2 where "off2 = off1 + copysize"
    define rem2 where "rem2 = rem1 - copysize"
    define out2 where "out2 = out1 @ memcpy (range_data e) (unat (off1 - range_pos e)) (unat copysize)"
    have eq: "read_loop (e # es) off rem out =
       (if rem1 = 0 then (off1, rem1, out1)
        else if rem2 = 0 then (off2, rem2, out2) else read_loop es off2 rem2 out2)"
      using False
      by (simp add: Let_def zerosize_def off1_def rem1_def out1_def copysize_def off2_def
          rem2_def out2_def)
    define z where "z = (if F < P then min R (P - F) else 0)"
    have uz: "unat zerosize = z"
      by (auto simp add: zerosize_def z_def word_less_nat_alt unat_sub word_le_nat_alt
          P_def F_def R_def min_def)
    have zR: "z \<le> R" by (simp add: z_def)
    have "zerosize \<le> rem" using zR uz by (simp add: word_le_nat_alt R_def)
    then have ur1: "unat rem1 = R - z" by (simp add: rem1_def unat_sub uz R_def)
    have "F + z \<le> S" using FS pzS by (auto simp add: z_def)
    with assms(3) have uo1: "unat off1 = F + z"
      unfolding off1_def F_def uz [symmetric] by (simp add: unat_add_lem [THEN iffD1])
    have zeros: "replicate z 0 = map (byte_at (e # es)) [F..<F + z]"
    proof -
      have "byte_at (e # es) x = 0" if "F \<le> x" "x < F + z" for x
      proof -
        from that have xP: "x < P" by (auto simp add: z_def split: if_splits)
        then have "loaded es x = None" using later by (intro loaded_below) auto
        with xP show ?thesis by (simp add: byte_at_def P_def)
      qed
      then show ?thesis by (auto simp add: list_eq_iff_nth_eq)
    qed
    have o1: "out1 = out @ map (byte_at (e # es)) [F..<F + z]"
      by (simp add: out1_def uz zeros)
    show ?thesis
    proof (cases "rem1 = 0")
      case True
      then have "R = z" using ur1 zR by (simp add: unat_eq_0 [symmetric])
      with True show ?thesis
        using uo1 o1 \<open>F + z \<le> S\<close> by (simp add: eq F_def R_def del: read_loop.simps)
    next
      case r1: False
      then have Rz: "z < R" using ur1 by (simp add: unat_eq_0 [symmetric])
      then have PF1: "P \<le> F + z" by (auto simp add: z_def min_def split: if_splits)
      have F1le: "F + z \<le> P + Z" using ge by (auto simp add: z_def)
      have "range_pos e \<le> off1" using PF1 uo1 by (simp add: word_le_nat_alt P_def)
      then have ud: "unat (off1 - range_pos e) = F + z - P"
        by (simp add: unat_sub uo1 P_def)
      then have "off1 - range_pos e \<le> range_size e"
        using F1le by (simp add: word_le_nat_alt Z_def)
      then have uav: "unat (range_size e - (off1 - range_pos e)) = P + Z - (F + z)"
        using PF1 F1le by (simp add: unat_sub ud Z_def)
      define c where "c = min (R - z) (P + Z - (F + z))"
      have uc: "unat copysize = c"
        by (auto simp add: copysize_def c_def word_less_nat_alt uav ur1 min_def)
      have "copysize \<le> rem1" using uc ur1 by (simp add: word_le_nat_alt c_def)
      then have ur2: "unat rem2 = R - z - c" by (simp add: rem2_def unat_sub uc ur1)
      have F2le: "F + z + c \<le> P + Z" using F1le by (simp add: c_def)
      with pzS assms(3) have uo2: "unat off2 = F + z + c"
        unfolding off2_def uo1 [symmetric] uc [symmetric] by (simp add: unat_add_lem [THEN iffD1])
      have copy: "memcpy (range_data e) (F + z - P) c = map (byte_at (e # es)) [F + z..<F + z + c]"
      proof -
        have "F + z - P + c \<le> length (range_data e)" using F2le PF1 len by simp
        from memcpy_nth [OF this, of P]
        have "memcpy (range_data e) (F + z - P) c =
                map (\<lambda>x. range_data e ! (x - P)) [F + z..<F + z + c]"
          using PF1 by simp
        also have "\<dots> = map (byte_at (e # es)) [F + z..<F + z + c]"
        proof (rule map_cong [OF refl])
          fix x assume "x \<in> set [F + z..<F + z + c]"
          then have "unat (range_pos e) \<le> x" "x < range_end e"
            using PF1 F2le re by (auto simp add: P_def)
          then show "range_data e ! (x - P) = byte_at (e # es) x"
            by (simp add: byte_at_Cons_in P_def)
        qed
        finally show ?thesis .
      qed
      have o2: "out2 = out @ map (byte_at (e # es)) [F..<F + z + c]"
        by (simp add: out2_def o1 ud uc copy map_upt_append)
      show ?thesis
      proof (cases "rem2 = 0")
        case True
        then have "R = z + c" using ur2 Rz by (simp add: unat_eq_0 [symmetric] c_def)
        with True r1 show ?thesis
          using uo2 o2 F2le pzS by (simp add: eq F_def R_def del: read_loop.simps)
      next
        case r2: False
        then have "c < R - z" using ur2 by (simp add: unat_eq_0 [symmetric])
        then have cE: "F + z + c = P + Z" using F1le by (simp add: c_def min_def split: if_splits)
        have eq2: "read_loop (e # es) off rem out = read_loop es off2 rem2 out2"
          using r1 r2 by (simp add: eq del: read_loop.simps)
        obtain off' rem' out' where rl: "read_loop es off2 rem2 out2 = (off', rem', out')"
          by (cases "read_loop es off2 rem2 out2") auto
        have "unat off2 \<le> S" using uo2 F2le pzS by simp
        from Cons.IH [OF sep within this, of rem2 out2] rl
        have ih: "unat off2 \<le> unat off'" "unat off' \<le> S"
          "unat off' + unat rem' = unat off2 + unat rem2"
          "out' = out2 @ map (byte_at es) [unat off2..<unat off']"
          "rem' \<noteq> 0 \<longrightarrow> (\<forall>r\<in>set es. range_end r \<le> unat off')"
          by auto
        have "map (byte_at es) [unat off2..<unat off'] = map (byte_at (e # es)) [unat off2..<unat off']"
          using uo2 cE re by (intro map_cong refl byte_at_Cons_out [symmetric]) auto
        with ih(4) have "out' = out @ map (byte_at (e # es)) [F..<F + z + c] @
            map (byte_at (e # es)) [F + z + c..<unat off']"
          by (simp add: o2 uo2)
        also have "map (byte_at (e # es)) [F..<F + z + c] @
            map (byte_at (e # es)) [F + z + c..<unat off'] = map (byte_at (e # es)) [F..<unat off']"
          using ih(1) uo2 by (intro map_upt_append) auto
        finally have "out' = out @ map (byte_at (e # es)) [F..<unat off']" .
        moreover have "range_end e \<le> unat off'" using ih(1) uo2 cE re by simp
        moreover have "unat off' + unat rem' = F + R" using ih(3) uo2 ur2 Rz \<open>c < R - z\<close> by simp
        ultimately show ?thesis using ih uo2 by (simp add: eq2 rl F_def R_def del: read_loop.simps)
      qed
    qed
  qed
qed


lemma sb_read_ok:
  fixes reader :: "'a::len word SBReader"
  assumes inv: "reader_inv reader" and n0: "n \<noteq> 0"
  shows "sb_read reader n =
           (if unat (reader_pos reader) + unat n \<le> unat (reader_size reader)
            then (n, None,
                  map (\<lambda>i. byte_at (ranges reader) (unat (reader_pos reader) + i)) [0..<unat n],
                  reader)
            else (0, Some Read_past_EOF,
                  map (\<lambda>i. byte_at (ranges reader) (unat (reader_pos reader) + i))
                    [0..<unat (reader_size reader) - unat (reader_pos reader)],
                  reader))"
proof -
  define S where "S = unat (reader_size reader)"
  define C where "C = unat (reader_pos reader)"
  define N where "N = unat n"
  let ?rs = "ranges reader"
  from inv have sep: "separated ?rs" and within: "ranges_within S ?rs" and CS: "C \<le> S"
    by (simp_all add: reader_inv_def S_def C_def word_le_nat_alt)
  have S2: "S < 2 ^ LENGTH('a)" by (simp add: S_def)
  obtain off' rem' out' where rl: "read_loop ?rs (reader_pos reader) n [] = (off', rem', out')"
    by (cases "read_loop ?rs (reader_pos reader) n []") auto
  from read_loop_inv [OF sep within S2, of "reader_pos reader" n "[]"] CS rl
  have l: "C \<le> unat off'" "unat off' \<le> S" "unat off' + unat rem' = C + N"
    "out' = map (byte_at ?rs) [C..<unat off']"
    "rem' \<noteq> 0 \<longrightarrow> (\<forall>r\<in>set ?rs. range_end r \<le> unat off')"
    by (auto simp add: C_def N_def)
  define zerosize where "zerosize =
                  (if rem' > 0 \<and> off' < reader_size reader then
                     (if reader_size reader - off' > rem' then rem' else reader_size reader - off')
                   else 0)"
  have eq: "sb_read reader n =
      (if rem' - zerosize \<noteq> 0 then (0, Some Read_past_EOF, out' @ replicate (unat zerosize) 0, reader)
       else (n, None, out' @ replicate (unat zerosize) 0, reader))"
    using n0 by (simp add: sb_read_def rl Let_def zerosize_def)
  define z where "z = min (unat rem') (S - unat off')"
  have "off' \<le> reader_size reader" using l(2) by (simp add: word_le_nat_alt S_def)
  then have us: "unat (reader_size reader - off') = S - unat off'"
    by (simp add: unat_sub S_def)
  have uz: "unat zerosize = z"
    by (auto simp add: zerosize_def z_def word_less_nat_alt us min_def S_def unat_gt_0 [symmetric]
        simp del: unat_gt_0)
  have "zerosize \<le> rem'" using uz by (simp add: word_le_nat_alt z_def)
  then have ur: "unat (rem' - zerosize) = unat rem' - z" by (simp add: unat_sub uz)
  have r0: "rem' - zerosize = 0 \<longleftrightarrow> C + N \<le> S"
    using ur l(2,3) by (auto simp add: unat_eq_0 [symmetric] z_def min_def simp del: unat_eq_0)
  have tail: "replicate z 0 = map (byte_at ?rs) [unat off'..<unat off' + z]"
  proof (cases "z = 0")
    case True
    then show ?thesis by simp
  next
    case False
    then have "rem' \<noteq> 0" by (auto simp add: z_def min_def split: if_splits)
    with l(5) have ab: "\<forall>r\<in>set ?rs. range_end r \<le> unat off'" by simp
    have "byte_at ?rs x = 0" if "unat off' \<le> x" for x
    proof -
      have "loaded ?rs x = None" using ab that by (intro loaded_above) auto
      then show ?thesis by (simp add: byte_at_def)
    qed
    then show ?thesis by (auto simp add: list_eq_iff_nth_eq)
  qed
  have out: "out' @ replicate (unat zerosize) 0 = map (byte_at ?rs) [C..<unat off' + z]"
    using l(1) by (simp add: l(4) uz tail map_upt_append)
  have shift: "map (byte_at ?rs) [C..<C + k] = map (\<lambda>i. byte_at ?rs (C + i)) [0..<k]" for k
    by (auto simp add: list_eq_iff_nth_eq)
  show ?thesis
  proof (cases "C + N \<le> S")
    case True
    with l(3) have "unat off' + z = C + N" by (auto simp add: z_def min_def)
    with True r0 show ?thesis
      using shift [of N] by (simp add: eq out C_def [symmetric] N_def [symmetric] S_def [symmetric])
  next
    case False
    with l(3) l(1) l(2) CS have "unat off' + z = C + (S - C)" by (auto simp add: z_def min_def)
    with False r0 show ?thesis
      using shift [of "S - C"]
      by (simp add: eq out C_def [symmetric] N_def [symmetric] S_def [symmetric])
  qed
qed

lemma byte_at_single:
  assumes "length (range_data r) = unat (range_size r)" "range_end r \<le> S"
  shows "map (byte_at [r]) [0..<S] =
           replicate (unat (range_pos r)) 0 @ range_data r @ replicate (S - range_end r) 0"
  using assms
  by (auto simp add: list_eq_iff_nth_eq byte_at_def range_end_def nth_append)


text \<open>
  Claim C3. In a state satisfying the data-model invariants, \<^verbatim>\<open>sb_read\<close> of \<open>n\<close>
  bytes succeeds, returning \<open>n\<close>, exactly when \<open>n\<close> is not zero and cursor plus \<open>n\<close>
  (an exact sum) is at most the size; byte \<open>i\<close> of the output is then the loaded byte
  at offset cursor plus \<open>i\<close>, or zero where nothing is loaded. Otherwise it returns 0
  with an error message. A fresh buffer of size \<open>S\<close> reads as \<open>S\<close> zeros, and after a
  single load of \<open>P\<close> at \<open>off\<close> that lies within the buffer the full read is zeros,
  then \<open>P\<close>, then zeros.
\<close>

theorem sb_read_contract:
  fixes reader :: "'a::len word SBReader" and S off bufsize :: "'a word"
  assumes "reader_inv reader"
  shows "(n \<noteq> 0 \<and> unat (reader_pos reader) + unat n \<le> unat (reader_size reader) \<longrightarrow>
            sb_read reader n =
              (n, None,
               map (\<lambda>i. byte_at (ranges reader) (unat (reader_pos reader) + i)) [0..<unat n],
               reader))
         \<and> (n = 0 \<or> unat (reader_size reader) < unat (reader_pos reader) + unat n \<longrightarrow>
              (\<exists>out. sb_read reader n =
                 (0, Some (if n = 0 then Read_zero_bytes else Read_past_EOF), out, reader)))
         \<and> (S \<noteq> 0 \<longrightarrow>
              sb_new_reader_custom_alloc [] S = Inr \<lparr>reader_pos = 0, reader_size = S, ranges = []\<rparr> \<and>
              sb_read \<lparr>reader_pos = 0, reader_size = S, ranges = []\<rparr> S =
                (S, None, replicate (unat S) 0, \<lparr>reader_pos = 0, reader_size = S, ranges = []\<rparr>))
         \<and> (bufsize \<noteq> 0 \<and> length P = unat bufsize \<and> unat off + unat bufsize \<le> unat S \<longrightarrow>
              sb_load_range [] \<lparr>reader_pos = 0, reader_size = S, ranges = []\<rparr> off P bufsize =
                Some (0, None, \<lparr>reader_pos = 0, reader_size = S,
                  ranges = [\<lparr>range_pos = off, range_size = bufsize, range_data = P\<rparr>]\<rparr>) \<and>
              sb_read \<lparr>reader_pos = 0, reader_size = S,
                  ranges = [\<lparr>range_pos = off, range_size = bufsize, range_data = P\<rparr>]\<rparr> S =
                (S, None,
                 replicate (unat off) 0 @ P @ replicate (unat S - (unat off + unat bufsize)) 0,
                 \<lparr>reader_pos = 0, reader_size = S,
                  ranges = [\<lparr>range_pos = off, range_size = bufsize, range_data = P\<rparr>]\<rparr>))"
proof -
  have A: "n \<noteq> 0 \<and> unat (reader_pos reader) + unat n \<le> unat (reader_size reader) \<longrightarrow>
            sb_read reader n =
              (n, None,
               map (\<lambda>i. byte_at (ranges reader) (unat (reader_pos reader) + i)) [0..<unat n],
               reader)"
    using sb_read_ok [OF assms] by simp
  have B: "n = 0 \<or> unat (reader_size reader) < unat (reader_pos reader) + unat n \<longrightarrow>
              (\<exists>out. sb_read reader n =
                 (0, Some (if n = 0 then Read_zero_bytes else Read_past_EOF), out, reader))"
  proof (cases "n = 0")
    case True
    then show ?thesis by (simp add: sb_read_def)
  next
    case False
    then show ?thesis using sb_read_ok [OF assms False] by simp
  qed
  have C: "S \<noteq> 0 \<longrightarrow>
              sb_new_reader_custom_alloc [] S = Inr \<lparr>reader_pos = 0, reader_size = S, ranges = []\<rparr> \<and>
              sb_read \<lparr>reader_pos = 0, reader_size = S, ranges = []\<rparr> S =
                (S, None, replicate (unat S) 0, \<lparr>reader_pos = 0, reader_size = S, ranges = []\<rparr>)"
  proof
    assume S0: "S \<noteq> 0"
    let ?r = "\<lparr>reader_pos = 0, reader_size = S, ranges = []\<rparr>"
    have inv: "reader_inv ?r" by (simp add: reader_inv_def ranges_within_def)
    have "map (\<lambda>i. byte_at ([] :: 'a word Range list) i) [0..<unat S] = replicate (unat S) 0"
      by (simp add: byte_at_def map_replicate_const)
    with sb_read_ok [OF inv S0] S0
    show "sb_new_reader_custom_alloc [] S = Inr ?r \<and>
          sb_read ?r S = (S, None, replicate (unat S) 0, ?r)"
      by (simp add: sb_new_reader_custom_alloc_def alloc_ok_def)
  qed
  have D: "bufsize \<noteq> 0 \<and> length P = unat bufsize \<and> unat off + unat bufsize \<le> unat S \<longrightarrow>
              sb_load_range [] \<lparr>reader_pos = 0, reader_size = S, ranges = []\<rparr> off P bufsize =
                Some (0, None, \<lparr>reader_pos = 0, reader_size = S,
                  ranges = [\<lparr>range_pos = off, range_size = bufsize, range_data = P\<rparr>]\<rparr>) \<and>
              sb_read \<lparr>reader_pos = 0, reader_size = S,
                  ranges = [\<lparr>range_pos = off, range_size = bufsize, range_data = P\<rparr>]\<rparr> S =
                (S, None,
                 replicate (unat off) 0 @ P @ replicate (unat S - (unat off + unat bufsize)) 0,
                 \<lparr>reader_pos = 0, reader_size = S,
                  ranges = [\<lparr>range_pos = off, range_size = bufsize, range_data = P\<rparr>]\<rparr>)"
  proof (intro impI, elim conjE)
    assume b0: "bufsize \<noteq> 0" and len: "length P = unat bufsize"
      and fit: "unat off + unat bufsize \<le> unat S"
    let ?e = "\<lparr>range_pos = off, range_size = bufsize, range_data = P\<rparr>"
    let ?r = "\<lparr>reader_pos = 0, reader_size = S, ranges = [?e]\<rparr>"
    from fit have bS: "\<not> S < bufsize" by (simp add: word_less_nat_alt)
    from fit b0 have S0: "S \<noteq> 0" by (auto simp add: unat_eq_0 [symmetric] simp del: unat_eq_0)
    have ld: "sb_load_range [] \<lparr>reader_pos = 0, reader_size = S, ranges = []\<rparr> off P bufsize =
        Some (0, None, ?r)"
      using b0 bS len by (simp add: sb_load_range_def alloc_ok_def alloc_next_def memcpy_def)
    have inv: "reader_inv ?r"
      using b0 len fit by (simp add: reader_inv_def ranges_within_def range_ok_def range_end_def)
    have "map (\<lambda>i. byte_at [?e] i) [0..<unat S] =
        replicate (unat off) 0 @ P @ replicate (unat S - (unat off + unat bufsize)) 0"
      using byte_at_single [of ?e "unat S"] len fit by (simp add: range_end_def)
    with sb_read_ok [OF inv S0] ld
    show "sb_load_range [] \<lparr>reader_pos = 0, reader_size = S, ranges = []\<rparr> off P bufsize =
                Some (0, None, ?r) \<and>
          sb_read ?r S = (S, None,
                 replicate (unat off) 0 @ P @ replicate (unat S - (unat off + unat bufsize)) 0, ?r)"
      by simp
  qed
  show ?thesis by (rule conjI [OF A conjI [OF B conjI [OF C D]]])
qed

theorem sb_read_contract_witness:
  "reader_inv read_reader \<and>
   sb_read read_reader 6 = (6, None, [0, 7, 8, 9, 0, 0], read_reader) \<and>
   (\<exists>out. sb_read read_reader 8 = (0, Some Read_past_EOF, out, read_reader)) \<and>
   sb_read \<lparr>reader_pos = 0, reader_size = 4 :: 64 word, ranges = []\<rparr> 4 =
     (4, None, [0, 0, 0, 0], \<lparr>reader_pos = 0, reader_size = 4, ranges = []\<rparr>) \<and>
   sb_read \<lparr>reader_pos = 0, reader_size = 6 :: 64 word,
       ranges = [\<lparr>range_pos = 1, range_size = 2, range_data = [5, 6]\<rparr>]\<rparr> 6 =
     (6, None, [0, 5, 6, 0, 0, 0], \<lparr>reader_pos = 0, reader_size = 6,
       ranges = [\<lparr>range_pos = 1, range_size = 2, range_data = [5, 6]\<rparr>]\<rparr>)"
proof -
  have inv: "reader_inv read_reader"
    by (simp add: read_reader_def reader_inv_def ranges_within_def range_ok_def range_end_def)
  have m: "map (\<lambda>i. byte_at (ranges read_reader) (unat (reader_pos read_reader) + i)) [0..<unat (6 :: 64 word)]
      = [0, 7, 8, 9, 0, 0]"
    by (simp add: read_reader_def byte_at_def range_end_def upt_rec)
  have r4: "replicate (unat (4 :: 64 word)) (0 :: 8 word) = [0, 0, 0, 0]"
    by code_simp
  have r6: "replicate (unat (1 :: 64 word)) (0 :: 8 word) @ [5, 6] @
      replicate (unat (6 :: 64 word) - (unat (1 :: 64 word) + unat (2 :: 64 word))) 0 = [0, 5, 6, 0, 0, 0]"
    by code_simp
  from sb_read_contract [OF inv, where n = 6] m
  have a: "sb_read read_reader 6 = (6, None, [0, 7, 8, 9, 0, 0], read_reader)"
    by (simp add: read_reader_def)
  from sb_read_contract [OF inv, where n = 8]
  have b: "\<exists>out. sb_read read_reader 8 = (0, Some Read_past_EOF, out, read_reader)"
    by (simp add: read_reader_def)
  from sb_read_contract [OF inv, where S = 4] r4
  have c: "sb_read \<lparr>reader_pos = 0, reader_size = 4 :: 64 word, ranges = []\<rparr> 4 =
     (4, None, [0, 0, 0, 0], \<lparr>reader_pos = 0, reader_size = 4, ranges = []\<rparr>)"
    by simp
  from sb_read_contract [OF inv, where S = 6 and off = 1 and bufsize = 2 and P = "[5, 6]"] r6
  have d: "sb_read \<lparr>reader_pos = 0, reader_size = 6 :: 64 word,
       ranges = [\<lparr>range_pos = 1, range_size = 2, range_data = [5, 6]\<rparr>]\<rparr> 6 =
     (6, None, [0, 5, 6, 0, 0, 0], \<lparr>reader_pos = 0, reader_size = 6,
       ranges = [\<lparr>range_pos = 1, range_size = 2, range_data = [5, 6]\<rparr>]\<rparr>)"
    by simp
  from inv a b c d show ?thesis by blast
qed

subsection \<open>Merging\<close>

lemma unat_range_end:
  fixes r :: "'a::len word Range"
  shows "range_end r < 2 ^ LENGTH('a) \<Longrightarrow> unat (range_pos r + range_size r) = range_end r"
  by (simp add: range_end_def unat_add_lem [THEN iffD1])

lemma intersects_nat:
  fixes a b :: "'a::len word Range"
  assumes "range_end a < 2 ^ LENGTH('a)" "range_end b < 2 ^ LENGTH('a)"
  shows "intersects a b \<longleftrightarrow> unat (range_pos b) \<le> range_end a \<and> unat (range_pos a) \<le> range_end b"
  using assms by (auto simp add: intersects_def word_less_nat_alt unat_range_end)

lemma contains_nat:
  fixes a b :: "'a::len word Range"
  assumes "range_end a < 2 ^ LENGTH('a)" "range_end b < 2 ^ LENGTH('a)"
  shows "contains a b \<longleftrightarrow> unat (range_pos a) \<le> unat (range_pos b) \<and> range_end b \<le> range_end a"
  using assms by (auto simp add: contains_def word_le_nat_alt unat_range_end)

lemma merge_partial_a_first:
  fixes a b :: "'a::len word Range"
  assumes pa: "payload_ok a" and pb: "payload_ok b"
    and ord: "unat (range_pos a) < unat (range_pos b)"
    and ov: "unat (range_pos b) \<le> range_end a" and ends: "range_end a < range_end b"
    and ok: "alloc_ok al"
  shows "merge al a b =
     (Merged \<lparr>range_pos = range_pos a,
              range_size = range_pos b + range_size b - range_pos a,
              range_data = range_data a @ drop (range_end a - unat (range_pos b)) (range_data b)\<rparr>,
      alloc_next al)"
    and "unat (range_pos b + range_size b - range_pos a) = range_end b - unat (range_pos a)"
proof -
  from pa pb have wa: "range_end a < 2 ^ LENGTH('a)" and wb: "range_end b < 2 ^ LENGTH('a)"
    and la: "length (range_data a) = unat (range_size a)"
    and lb: "length (range_data b) = unat (range_size b)"
    by (simp_all add: payload_ok_def)
  have i: "intersects a b" using ord ov ends by (simp add: intersects_nat [OF wa wb] range_end_def)
  have c1: "\<not> contains a b" using ends by (simp add: contains_nat [OF wa wb])
  have c2: "\<not> contains b a" using ord by (simp add: contains_nat [OF wb wa])
  have le: "range_pos a \<le> range_pos b" using ord by (simp add: word_le_nat_alt)
  have "range_pos b \<le> range_pos a + range_size a"
    using ov by (simp add: word_le_nat_alt unat_range_end [OF wa])
  then have off: "unat (range_pos a + range_size a - range_pos b) = range_end a - unat (range_pos b)"
    by (simp add: unat_sub unat_range_end [OF wa])
  have "range_pos a + range_size a - range_pos b \<le> range_size b"
    using ends ov by (simp add: word_le_nat_alt off) (simp add: range_end_def)
  then have n: "unat (range_size b - (range_pos a + range_size a - range_pos b)) =
      unat (range_size b) - (range_end a - unat (range_pos b))"
    by (simp add: unat_sub off)
  have "range_pos a \<le> range_pos b + range_size b"
    using ord by (simp add: word_le_nat_alt unat_range_end [OF wb]) (simp add: range_end_def)
  then show "unat (range_pos b + range_size b - range_pos a) = range_end b - unat (range_pos a)"
    by (simp add: unat_sub unat_range_end [OF wb])
  show "merge al a b =
     (Merged \<lparr>range_pos = range_pos a,
              range_size = range_pos b + range_size b - range_pos a,
              range_data = range_data a @ drop (range_end a - unat (range_pos b)) (range_data b)\<rparr>,
      alloc_next al)"
    using i c1 c2 le ok by (simp add: merge_def Let_def memcpy_def la lb off n)
qed

lemma merge_partial_b_first:
  fixes a b :: "'a::len word Range"
  assumes pa: "payload_ok a" and pb: "payload_ok b"
    and ord: "unat (range_pos b) < unat (range_pos a)"
    and ov: "unat (range_pos a) \<le> range_end b" and ends: "range_end b < range_end a"
    and ok: "alloc_ok al"
  shows "merge al a b =
     (Merged \<lparr>range_pos = range_pos b,
              range_size = range_pos a + range_size a - range_pos b,
              range_data = take (unat (range_pos a) - unat (range_pos b)) (range_data b) @ range_data a\<rparr>,
      alloc_next al)"
    and "unat (range_pos a + range_size a - range_pos b) = range_end a - unat (range_pos b)"
proof -
  from pa pb have wa: "range_end a < 2 ^ LENGTH('a)" and wb: "range_end b < 2 ^ LENGTH('a)"
    and la: "length (range_data a) = unat (range_size a)"
    and lb: "length (range_data b) = unat (range_size b)"
    by (simp_all add: payload_ok_def)
  have i: "intersects a b" using ord ov ends by (simp add: intersects_nat [OF wa wb] range_end_def)
  have c1: "\<not> contains a b" using ord by (simp add: contains_nat [OF wa wb])
  have c2: "\<not> contains b a" using ends by (simp add: contains_nat [OF wb wa])
  have le: "\<not> range_pos a \<le> range_pos b" using ord by (simp add: word_le_nat_alt)
  have "range_pos b \<le> range_pos a" using ord by (simp add: word_le_nat_alt)
  then have off: "unat (range_pos a - range_pos b) = unat (range_pos a) - unat (range_pos b)"
    by (simp add: unat_sub)
  have "range_pos b \<le> range_pos a + range_size a"
    using ord by (simp add: word_le_nat_alt unat_range_end [OF wa]) (simp add: range_end_def)
  then show "unat (range_pos a + range_size a - range_pos b) = range_end a - unat (range_pos b)"
    by (simp add: unat_sub unat_range_end [OF wa])
  show "merge al a b =
     (Merged \<lparr>range_pos = range_pos b,
              range_size = range_pos a + range_size a - range_pos b,
              range_data = take (unat (range_pos a) - unat (range_pos b)) (range_data b) @ range_data a\<rparr>,
      alloc_next al)"
    using i c1 c2 le ok by (simp add: merge_def Let_def memcpy_def la lb off)
qed


lemma merge_contains_a:
  fixes a b :: "'a::len word Range"
  assumes "payload_ok a" "intersects a b" "contains a b" "alloc_ok al"
  shows "merge al a b = (Merged a, alloc_next al)"
  using assms by (simp add: merge_def memcpy_def payload_ok_def)

lemma merge_contains_b:
  fixes a b :: "'a::len word Range"
  assumes "payload_ok b" "intersects a b" "\<not> contains a b" "contains b a" "alloc_ok al"
  shows "merge al a b = (Merged b, alloc_next al)"
  using assms by (simp add: merge_def memcpy_def payload_ok_def)

text \<open>
  Claim C1, as amended. When \<^verbatim>\<open>merge\<close> is given two intersecting ranges \<open>a\<close> and
  \<open>b\<close> (\<open>a\<close> is the newly inserted range in the first merge of a load, and the range
  merged so far in the later ones): if \<open>a\<close> contains \<open>b\<close> the result is \<open>a\<close>; else
  if \<open>b\<close> contains \<open>a\<close> the result is \<open>b\<close>; otherwise the result spans from the lower
  start to the higher end, every byte inside \<open>a\<close> is the byte of \<open>a\<close>, and every other
  byte is the byte of \<open>b\<close>. The overlap is taken from \<open>a\<close> whether \<open>a\<close> starts
  lower or higher.
\<close>

theorem merge_bytes:
  fixes a b :: "'a::len word Range"
  assumes pa: "payload_ok a" and pb: "payload_ok b" and i: "intersects a b" and ok: "alloc_ok al"
  shows "\<exists>m. merge al a b = (Merged m, alloc_next al) \<and>
           (if contains a b then m = a
            else if contains b a then m = b
            else unat (range_pos m) = min (unat (range_pos a)) (unat (range_pos b)) \<and>
                 range_end m = max (range_end a) (range_end b) \<and>
                 length (range_data m) = unat (range_size m) \<and>
                 (\<forall>x. loaded [m] x =
                    (if unat (range_pos a) \<le> x \<and> x < range_end a
                     then Some (range_data a ! (x - unat (range_pos a)))
                     else if unat (range_pos b) \<le> x \<and> x < range_end b
                     then Some (range_data b ! (x - unat (range_pos b)))
                     else None)))"
proof -
  from pa pb have wa: "range_end a < 2 ^ LENGTH('a)" and wb: "range_end b < 2 ^ LENGTH('a)"
    and la: "length (range_data a) = unat (range_size a)"
    and lb: "length (range_data b) = unat (range_size b)"
    by (simp_all add: payload_ok_def)
  from i have ov: "unat (range_pos b) \<le> range_end a" "unat (range_pos a) \<le> range_end b"
    by (simp_all add: intersects_nat [OF wa wb])
  show ?thesis
  proof (cases "contains a b")
    case True
    with merge_contains_a [OF pa i True ok] show ?thesis by simp
  next
    case ca: False
    show ?thesis
    proof (cases "contains b a")
      case True
      with merge_contains_b [OF pb i ca True ok] ca show ?thesis by simp
    next
      case cb: False
      show ?thesis
      proof (cases "unat (range_pos a) < unat (range_pos b)")
        case True
        with ca have ends: "range_end a < range_end b"
          by (simp add: contains_nat [OF wa wb])
        let ?m = "\<lparr>range_pos = range_pos a,
              range_size = range_pos b + range_size b - range_pos a,
              range_data = range_data a @ drop (range_end a - unat (range_pos b)) (range_data b)\<rparr>"
        note m = merge_partial_a_first [OF pa pb True ov(1) ends ok]
        have re: "range_end ?m = range_end b"
          using m(2) ov(2) by (simp add: range_end_def)
        have len: "length (range_data ?m) = unat (range_size ?m)"
          using m(2) la lb True ov(1) ends by (simp add: range_end_def)
        have "loaded [?m] x =
                    (if unat (range_pos a) \<le> x \<and> x < range_end a
                     then Some (range_data a ! (x - unat (range_pos a)))
                     else if unat (range_pos b) \<le> x \<and> x < range_end b
                     then Some (range_data b ! (x - unat (range_pos b)))
                     else None)" for x
          using True ov(1) ends la lb re
          by (auto simp add: nth_append range_end_def)
        with m(1) re len ca cb True ends show ?thesis
          by (intro exI [of _ ?m]) (simp add: min_def max_def)
      next
        case False
        with cb have ord: "unat (range_pos b) < unat (range_pos a)"
          using ca ov by (auto simp add: contains_nat [OF wb wa] contains_nat [OF wa wb])
        with cb have ends: "range_end b < range_end a"
          by (simp add: contains_nat [OF wb wa])
        let ?m = "\<lparr>range_pos = range_pos b,
              range_size = range_pos a + range_size a - range_pos b,
              range_data = take (unat (range_pos a) - unat (range_pos b)) (range_data b) @ range_data a\<rparr>"
        note m = merge_partial_b_first [OF pa pb ord ov(2) ends ok]
        have re: "range_end ?m = range_end a"
          using m(2) ov(1) by (simp add: range_end_def)
        have len: "length (range_data ?m) = unat (range_size ?m)"
          using m(2) la lb ord ov(2) ends by (simp add: range_end_def)
        have "loaded [?m] x =
                    (if unat (range_pos a) \<le> x \<and> x < range_end a
                     then Some (range_data a ! (x - unat (range_pos a)))
                     else if unat (range_pos b) \<le> x \<and> x < range_end b
                     then Some (range_data b ! (x - unat (range_pos b)))
                     else None)" for x
          using ord ov(2) ends la lb re
          by (auto simp add: nth_append range_end_def)
        with m(1) re len ca cb ord ends show ?thesis
          by (intro exI [of _ ?m]) (simp add: min_def max_def)
      qed
    qed
  qed
qed

lemma merge_example: "merge [] merge_new merge_old = (Merged merge_both, [])"
  by (simp add: merge_def merge_new_def merge_old_def merge_both_def intersects_def contains_def
      alloc_ok_def alloc_next_def memcpy_def Let_def)

theorem merge_bytes_witness:
  "payload_ok merge_new \<and> payload_ok merge_old \<and> intersects merge_new merge_old \<and> alloc_ok [] \<and>
   \<not> contains merge_new merge_old \<and> \<not> contains merge_old merge_new \<and>
   merge [] merge_new merge_old = (Merged merge_both, []) \<and>
   loaded [merge_both] 3 = Some 13 \<and> loaded [merge_both] 4 = Some 22"
proof -
  have pa: "payload_ok merge_new" by (simp add: payload_ok_def merge_new_def range_end_def)
  have pb: "payload_ok merge_old" by (simp add: payload_ok_def merge_old_def range_end_def)
  have i: "intersects merge_new merge_old" by (simp add: intersects_def merge_new_def merge_old_def)
  have ok: "alloc_ok []" by (simp add: alloc_ok_def)
  have ca: "\<not> contains merge_new merge_old" by (simp add: contains_def merge_new_def merge_old_def)
  have cb: "\<not> contains merge_old merge_new" by (simp add: contains_def merge_new_def merge_old_def)
  from merge_bytes [OF pa pb i ok] obtain m
    where m: "merge [] merge_new merge_old = (Merged m, alloc_next [])"
      and rest: "if contains merge_new merge_old then m = merge_new
            else if contains merge_old merge_new then m = merge_old
            else unat (range_pos m) = min (unat (range_pos merge_new)) (unat (range_pos merge_old)) \<and>
                 range_end m = max (range_end merge_new) (range_end merge_old) \<and>
                 length (range_data m) = unat (range_size m) \<and>
                 (\<forall>x. loaded [m] x =
                    (if unat (range_pos merge_new) \<le> x \<and> x < range_end merge_new
                     then Some (range_data merge_new ! (x - unat (range_pos merge_new)))
                     else if unat (range_pos merge_old) \<le> x \<and> x < range_end merge_old
                     then Some (range_data merge_old ! (x - unat (range_pos merge_old)))
                     else None))"
    by blast
  from m merge_example have "m = merge_both" by simp
  with rest ca cb have bytes: "loaded [merge_both] x =
                    (if unat (range_pos merge_new) \<le> x \<and> x < range_end merge_new
                     then Some (range_data merge_new ! (x - unat (range_pos merge_new)))
                     else if unat (range_pos merge_old) \<le> x \<and> x < range_end merge_old
                     then Some (range_data merge_old ! (x - unat (range_pos merge_old)))
                     else None)" for x
    by (simp del: loaded.simps)
  have b3: "loaded [merge_both] 3 = Some 13"
    unfolding bytes by (simp add: merge_new_def range_end_def)
  have b4: "loaded [merge_both] 4 = Some 22"
    unfolding bytes by (simp add: merge_new_def merge_old_def range_end_def)
  from pa pb i ok ca cb merge_example b3 b4 show ?thesis by simp
qed

text \<open>
  Claim C1 as stated fails: a range loaded at offset 0 over an existing range that
  starts at offset 2. The ranges overlap partially, the existing one has the higher
  start, and at offset 3, inside both, the merged byte is the new range's 13 where the
  claim has the existing range's 21.
\<close>

theorem merge_higher_start_counterexample:
  "sb_load_range [] \<lparr>reader_pos = 0, reader_size = 8, ranges = [merge_old]\<rparr> 0 [10, 11, 12, 13] 4 =
     Some (0, None, \<lparr>reader_pos = 0, reader_size = 8, ranges = [merge_both]\<rparr>) \<and>
   intersects merge_new merge_old \<and>
   \<not> contains merge_new merge_old \<and> \<not> contains merge_old merge_new \<and>
   range_pos merge_new < range_pos merge_old \<and>
   unat (range_pos merge_old) \<le> 3 \<and> 3 < range_end merge_old \<and>
   loaded [merge_old] 3 = Some 21 \<and>
   loaded [merge_new] 3 = Some 13 \<and>
   loaded [merge_both] 3 = Some 13"
  by (simp add: sb_load_range_def merge_further.simps merge_step_def merge_def merge_new_def
      merge_old_def merge_both_def intersects_def contains_def alloc_ok_def alloc_next_def
      memcpy_def Let_def range_end_def)

subsection \<open>Validation of a load\<close>

lemma alloc_next_good: "False \<notin> set al \<Longrightarrow> False \<notin> set (alloc_next al)"
  by (auto simp add: alloc_next_def dest: in_set_dropD)

lemma alloc_ok_good: "False \<notin> set al \<Longrightarrow> alloc_ok al"
  by (cases al) (auto simp add: alloc_ok_def)

lemma range_index_mem: "e \<in> set rs \<Longrightarrow> \<exists>j. range_index rs (range_pos e) = Some j"
  by (induction rs) auto

lemma range_index_distinct:
  "distinct (map range_pos rs) \<Longrightarrow> i < length rs \<Longrightarrow> range_index rs (range_pos (rs ! i)) = Some i"
proof (induction rs arbitrary: i)
  case Nil
  then show ?case by simp
next
  case (Cons r rs)
  show ?case
  proof (cases i)
    case 0
    then show ?thesis by simp
  next
    case (Suc j)
    with Cons.prems have "rs ! j \<in> set rs" by simp
    with Cons.prems have "range_pos (rs ! j) \<noteq> range_pos r" by (metis distinct.simps(2) image_eqI list.simps(9) set_map)
    with Cons Suc show ?thesis by auto
  qed
qed

lemma pos_sorted_distinct: "pos_sorted rs \<Longrightarrow> distinct (map range_pos rs)"
  by (simp add: pos_sorted_def strict_sorted_iff)

lemma merge_pos:
  "merge al a b = (Merged m, al') \<Longrightarrow> range_pos m = min (range_pos a) (range_pos b)"
  by (auto simp add: merge_def contains_def Let_def min_def split: if_splits)

lemma merge_good:
  assumes "False \<notin> set al"
  shows "fst (merge al a b) \<noteq> Merge_failed \<and> False \<notin> set (snd (merge al a b))"
  using assms alloc_ok_good [OF assms] alloc_next_good [OF assms]
  by (simp add: merge_def Let_def)

lemma merge_not_intersects: "\<not> intersects a b \<Longrightarrow> merge al a b = (Not_merged, al)"
  by (simp add: merge_def)

lemma merge_Not_merged: "merge al a b = (Not_merged, al') \<Longrightarrow> \<not> intersects a b \<and> al' = al"
  by (auto simp add: merge_def Let_def split: if_splits)


lemma merge_first_none:
  "\<forall>q\<in>set es. range_pos r + range_size r < range_pos q \<Longrightarrow> merge_first al r es = No_merge"
  by (induction es) (auto simp add: merge_not_intersects intersects_def)

lemma pos_sorted_Cons:
  "pos_sorted (e # es) = ((\<forall>q\<in>set es. range_pos e < range_pos q) \<and> pos_sorted es)"
  by (auto simp add: pos_sorted_def)

lemma pos_sorted_append:
  "pos_sorted (xs @ ys) =
     (pos_sorted xs \<and> pos_sorted ys \<and> (\<forall>x\<in>set xs. \<forall>y\<in>set ys. range_pos x < range_pos y))"
  by (auto simp add: pos_sorted_def sorted_wrt_append)

lemma merge_first_sorted:
  fixes r :: "'a::len word Range"
  assumes "pos_sorted (pre @ es)" "\<forall>p\<in>set pre. range_pos p < range_pos r"
    "\<forall>e\<in>set es. range_end e < 2 ^ LENGTH('a)" "False \<notin> set al"
  shows "case merge_first al r es of
           First_failed \<Rightarrow> False
         | No_merge \<Rightarrow> True
         | First_merged k es' al' \<Rightarrow> pos_sorted (pre @ es') \<and> k < length es' \<and> False \<notin> set al'"
  using assms
proof (induction es arbitrary: pre al)
  case Nil
  then show ?case by simp
next
  case (Cons e es)
  obtain res al' where m: "merge al r e = (res, al')" by (cases "merge al r e") auto
  from merge_good [OF Cons.prems(4), of r e] m
  have nf: "res \<noteq> Merge_failed" and good: "False \<notin> set al'" by simp_all
  from Cons.prems(1) have sp: "pos_sorted pre" and se: "pos_sorted (e # es)"
    and cross: "\<forall>x\<in>set pre. \<forall>y\<in>set (e # es). range_pos x < range_pos y"
    by (simp_all add: pos_sorted_append)
  show ?case
  proof (cases res)
    case Merge_failed
    with nf show ?thesis by simp
  next
    case (Merged mr)
    from merge_pos [OF m [unfolded Merged]] have p: "range_pos mr = min (range_pos r) (range_pos e)" .
    have "pos_sorted (mr # es)"
      using se p by (auto simp add: pos_sorted_Cons min_def)
    moreover have "\<forall>x\<in>set pre. \<forall>y\<in>set (mr # es). range_pos x < range_pos y"
      using cross Cons.prems(2) p by (auto simp add: min_def)
    ultimately have "pos_sorted (pre @ mr # es)" using sp by (simp add: pos_sorted_append)
    with m Merged good show ?thesis by simp
  next
    case Not_merged
    from merge_Not_merged [OF m [unfolded Not_merged]] have ni: "\<not> intersects r e" and al: "al' = al"
      by simp_all
    show ?thesis
    proof (cases "range_pos r + range_size r < range_pos e")
      case True
      with se have "\<forall>q\<in>set es. range_pos r + range_size r < range_pos q"
        by (auto simp add: pos_sorted_Cons)
      from merge_first_none [OF this] m Not_merged show ?thesis by simp
    next
      case False
      with ni have "range_pos e + range_size e < range_pos r" by (simp add: intersects_def)
      moreover from Cons.prems(3) have "range_end e < 2 ^ LENGTH('a)" by simp
      ultimately have er: "range_pos e < range_pos r"
        by (simp add: word_less_nat_alt unat_add_lem [THEN iffD1] range_end_def)
      have "case merge_first al r es of
           First_failed \<Rightarrow> False
         | No_merge \<Rightarrow> True
         | First_merged k es' al' \<Rightarrow> pos_sorted ((pre @ [e]) @ es') \<and> k < length es' \<and> False \<notin> set al'"
        using Cons.prems er by (intro Cons.IH) auto
      with m Not_merged al show ?thesis by (simp split: first_merge.splits)
    qed
  qed
qed

lemma sorted_wrt_remove_nth:
  "sorted_wrt P xs \<Longrightarrow> sorted_wrt P (take j xs @ drop (Suc j) xs)"
proof (induction xs arbitrary: j)
  case Nil
  then show ?case by simp
next
  case (Cons x xs)
  show ?case
  proof (cases j)
    case 0
    with Cons.prems show ?thesis by simp
  next
    case (Suc i)
    with Cons show ?thesis by (auto dest: in_set_takeD in_set_dropD)
  qed
qed

lemma merge_step_good:
  fixes reader :: "'a::len word SBReader"
  assumes ps: "pos_sorted (ranges reader)" and good: "False \<notin> set al"
  shows "(\<exists>rd. merge_step al reader k = Return (0, None, rd)) \<or>
         (\<exists>al' rs'. merge_step al reader k = Continue al' (reader\<lparr>ranges := rs'\<rparr>) k \<and>
            pos_sorted rs' \<and> False \<notin> set al' \<and> length rs' < length (ranges reader))"
proof (cases "Suc k < length (ranges reader)")
  case False
  then show ?thesis by (simp add: merge_step_def)
next
  case True
  let ?rs = "ranges reader"
  obtain res al' where m: "merge al (?rs ! k) (?rs ! Suc k) = (res, al')"
    by (cases "merge al (?rs ! k) (?rs ! Suc k)") auto
  from merge_good [OF good, of "?rs ! k" "?rs ! Suc k"] m
  have nf: "res \<noteq> Merge_failed" and good': "False \<notin> set al'" by simp_all
  show ?thesis
  proof (cases res)
    case Merge_failed
    with nf show ?thesis by simp
  next
    case Not_merged
    with m True show ?thesis by (simp add: merge_step_def)
  next
    case (Merged mr)
    have lt: "range_pos (?rs ! k) < range_pos (?rs ! Suc k)"
      using sorted_wrt_nth_less [of "(<)" "map range_pos ?rs" k "Suc k"] ps True
      by (simp add: pos_sorted_def)
    with merge_pos [OF m [unfolded Merged]] have p: "range_pos mr = range_pos (?rs ! k)"
      by (simp add: min_absorb1 less_imp_le)
    let ?rs1 = "?rs[k := mr]"
    have mp: "map range_pos ?rs1 = map range_pos ?rs"
      using p True by (simp add: map_update) (metis list_update_id map_update)
    then have ps1: "pos_sorted ?rs1" using ps by (simp add: pos_sorted_def)
    have "range_index ?rs1 (range_pos (?rs1 ! Suc k)) = Some (Suc k)"
      using True by (intro range_index_distinct pos_sorted_distinct ps1) simp
    then have ri: "range_index ?rs1 (range_pos (?rs ! Suc k)) = Some (Suc k)" by simp
    let ?rs' = "take (Suc k) ?rs1 @ drop (Suc (Suc k)) ?rs1"
    have "pos_sorted ?rs'"
      using sorted_wrt_remove_nth [OF ps1 [unfolded pos_sorted_def], of "Suc k"]
      by (simp add: pos_sorted_def take_map drop_map)
    moreover have "length ?rs' < length ?rs" using True by simp
    moreover have "merge_step al reader k = Continue al' (reader\<lparr>ranges := ?rs'\<rparr>) k"
      using True m Merged ri by (simp add: merge_step_def Let_def)
    ultimately show ?thesis using good' by blast
  qed
qed

lemma merge_further_good:
  fixes reader :: "'a::len word SBReader"
  assumes "pos_sorted (ranges reader)" "False \<notin> set al"
  shows "\<exists>rd. merge_further al reader k = Some (0, None, rd)"
  using assms
proof (induction "length (ranges reader)" arbitrary: reader al rule: less_induct)
  case less
  from merge_step_good [OF less.prems, of k]
  show ?case
  proof (elim disjE exE conjE)
    fix rd assume "merge_step al reader k = Return (0, None, rd)"
    then show ?thesis by (subst merge_further.simps) simp
  next
    fix al' rs'
    assume st: "merge_step al reader k = Continue al' (reader\<lparr>ranges := rs'\<rparr>) k"
      and ps: "pos_sorted rs'" and good: "False \<notin> set al'" and len: "length rs' < length (ranges reader)"
    have "\<exists>rd. merge_further al' (reader\<lparr>ranges := rs'\<rparr>) k = Some (0, None, rd)"
      using ps good len by (intro less.hyps) simp_all
    with st show ?thesis by (subst merge_further.simps) simp
  qed
qed


lemma separated_pos_sorted: "separated rs \<Longrightarrow> pos_sorted rs"
proof (induction rs)
  case Nil
  then show ?case by (simp add: pos_sorted_def)
next
  case (Cons e es)
  have "range_pos e < range_pos q" if "q \<in> set es" for q
    using separated_Cons [OF Cons.prems that] range_end_ge [of e]
    by (simp add: word_less_nat_alt)
  moreover have "pos_sorted es" using Cons by (auto dest: separated_tail)
  ultimately show ?case by (simp add: pos_sorted_Cons)
qed

lemma ranges_within_no_wrap:
  fixes rs :: "'a::len word Range list"
  assumes "ranges_within S rs" "S < 2 ^ LENGTH('a)"
  shows "\<forall>e\<in>set rs. range_end e < 2 ^ LENGTH('a)"
  using assms by (auto simp add: ranges_within_def list_all_iff)

lemma merge_step_returns:
  assumes "merge_step al reader k = Return (ret, err, rd)"
  shows "(ret = 0 \<and> err = None) \<or> (ret = -1 \<and> err = Some Alloc_merged_buffer)"
  using assms
  by (auto simp add: merge_step_def Let_def split: if_splits prod.splits merge_result.splits
      option.splits)

lemma merge_further_ret:
  assumes "merge_further al reader k = Some res"
  shows "(fst res = 0 \<and> fst (snd res) = None) \<or>
         (fst res = -1 \<and> fst (snd res) = Some Alloc_merged_buffer)"
proof (rule merge_further.raw_induct [where P = "\<lambda>al reader k res.
         (fst res = 0 \<and> fst (snd res) = None) \<or>
         (fst res = -1 \<and> fst (snd res) = Some Alloc_merged_buffer)", OF _ assms])
  fix loop :: "allocator \<Rightarrow> 'a word SBReader \<Rightarrow> nat \<Rightarrow> 'a word result option"
  fix al reader k and res :: "'a word result"
  assume IH: "\<And>al reader k res. loop al reader k = Some res \<Longrightarrow>
         (fst res = 0 \<and> fst (snd res) = None) \<or>
         (fst res = -1 \<and> fst (snd res) = Some Alloc_merged_buffer)"
  assume st: "(case merge_step al reader k of Return res \<Rightarrow> Some res
      | Continue al' reader' k' \<Rightarrow> loop al' reader' k'
      | Abort \<Rightarrow> None) = Some res"
  show "(fst res = 0 \<and> fst (snd res) = None) \<or>
         (fst res = -1 \<and> fst (snd res) = Some Alloc_merged_buffer)"
  proof (cases "merge_step al reader k")
    case (Return r)
    with st have "merge_step al reader k = Return (fst res, fst (snd res), snd (snd res))"
      by simp
    from merge_step_returns [OF this] show ?thesis .
  next
    case (Continue al' rd' k')
    with st have "loop al' rd' k' = Some res" by simp
    then show ?thesis by (rule IH)
  next
    case Abort
    with st show ?thesis by simp
  qed
qed

lemma sb_load_range_rejects:
  fixes reader :: "'a::len word SBReader"
  assumes "bufsize = 0 \<or> reader_size reader < reader_pos reader + bufsize"
  shows "sb_load_range al reader pos buf bufsize =
           Some (-1, Some (if bufsize = 0 then Invalid_buffer_size else Load_past_end), reader)"
  using assms by (auto simp add: sb_load_range_def)

lemma sb_load_range_errors:
  fixes reader :: "'a::len word SBReader"
  assumes v: "bufsize \<noteq> 0" "reader_pos reader + bufsize \<le> reader_size reader"
    and r: "sb_load_range al reader pos buf bufsize = Some (ret, err, rd)"
  shows "(ret = 0 \<and> err = None) \<or>
         (ret = -1 \<and> err \<in> {Some Alloc_new_range, Some Alloc_entry_buffer, Some Alloc_merged_buffer})"
proof -
  let ?r = "\<lparr>range_pos = pos, range_size = bufsize, range_data = memcpy buf 0 (unat bufsize)\<rparr>"
  from v have nv: "\<not> reader_size reader < reader_pos reader + bufsize" by (simp add: not_less)
  show ?thesis
  proof (cases "merge_first (alloc_next (alloc_next al)) ?r (ranges reader)")
    case First_failed
    with r v nv show ?thesis
      by (auto simp add: sb_load_range_def Let_def split: if_splits)
  next
    case No_merge
    with r v nv show ?thesis
      by (auto simp add: sb_load_range_def Let_def split: if_splits option.splits)
  next
    case (First_merged k rs al')
    show ?thesis
    proof (cases "\<not> alloc_ok al \<or> \<not> alloc_ok (alloc_next al) \<or> ranges reader = []")
      case True
      with r v nv show ?thesis
        by (auto simp add: sb_load_range_def Let_def split: if_splits)
    next
      case False
      with r v nv First_merged
      have "merge_further al' (reader\<lparr>ranges := rs\<rparr>) k = Some (ret, err, rd)"
        by (simp add: sb_load_range_def Let_def)
      from merge_further_ret [OF this] show ?thesis by auto
    qed
  qed
qed

lemma sb_load_range_accepts:
  fixes reader :: "'a::len word SBReader"
  assumes v: "bufsize \<noteq> 0" "reader_pos reader + bufsize \<le> reader_size reader"
    and inv: "reader_inv reader" and good: "False \<notin> set al"
  shows "\<exists>rd. sb_load_range al reader pos buf bufsize = Some (0, None, rd)"
proof -
  let ?r = "\<lparr>range_pos = pos, range_size = bufsize, range_data = memcpy buf 0 (unat bufsize)\<rparr>"
  let ?al = "alloc_next (alloc_next al)"
  from v have nv: "\<not> reader_size reader < reader_pos reader + bufsize" by (simp add: not_less)
  have ok1: "alloc_ok al" and ok2: "alloc_ok (alloc_next al)" and good2: "False \<notin> set ?al"
    using good by (simp_all add: alloc_ok_good alloc_next_good)
  from inv have ps: "pos_sorted ([] @ ranges reader)"
    and nw: "\<forall>e\<in>set (ranges reader). range_end e < 2 ^ LENGTH('a)"
    using ranges_within_no_wrap [of "unat (reader_size reader)" "ranges reader"]
    by (simp_all add: reader_inv_def separated_pos_sorted)
  have mf: "case merge_first ?al ?r (ranges reader) of
           First_failed \<Rightarrow> False
         | No_merge \<Rightarrow> True
         | First_merged k es' al' \<Rightarrow> pos_sorted ([] @ es') \<and> k < length es' \<and> False \<notin> set al'"
    using ps nw good2 by (intro merge_first_sorted) simp_all
  show ?thesis
  proof (cases "ranges reader = []")
    case True
    with v nv ok1 ok2 show ?thesis by (simp add: sb_load_range_def)
  next
    case ne: False
    show ?thesis
    proof (cases "merge_first ?al ?r (ranges reader)")
      case First_failed
      with mf show ?thesis by simp
    next
      case No_merge
      show ?thesis
      proof (cases "find (\<lambda>e. pos < range_pos e) (ranges reader)")
        case None
        with v nv ok1 ok2 ne No_merge show ?thesis by (simp add: sb_load_range_def)
      next
        case (Some e)
        then have "e \<in> set (ranges reader)" by (auto simp add: find_Some_iff)
        from range_index_mem [OF this] obtain j
          where "range_index (ranges reader) (range_pos e) = Some j" by blast
        with v nv ok1 ok2 ne No_merge Some show ?thesis
          by (simp add: sb_load_range_def range_insert_before_def)
      qed
    next
      case (First_merged k rs al')
      with mf have "pos_sorted rs" "False \<notin> set al'" by simp_all
      then have "\<exists>rd. merge_further al' (reader\<lparr>ranges := rs\<rparr>) k = Some (0, None, rd)"
        by (intro merge_further_good) simp_all
      with v nv ok1 ok2 ne First_merged show ?thesis by (simp add: sb_load_range_def)
    qed
  qed
qed

lemma load_bound_wraps:
  fixes reader :: "'a::len word SBReader"
  shows "unat (reader_pos reader + bufsize) = load_bound reader bufsize mod 2 ^ LENGTH('a)"
  by (simp add: load_bound_def unat_word_ariths)

text \<open>
  Claim C8, as amended. \<^verbatim>\<open>sb_load_range\<close> rejects a zero-length payload, and a payload
  for which cursor plus length, reduced modulo \<open>2 ^ LENGTH('a)\<close>, exceeds the size; it
  then returns -1 with the message of that check and leaves the reader unchanged,
  whatever the offset. Every other input passes validation: the only errors it can
  still meet are allocation failures, and with an allocator that never fails, in a
  state satisfying the invariants, it returns 0 at every offset.
\<close>

theorem sb_load_range_validation:
  fixes reader :: "'a::len word SBReader"
  shows "(bufsize = 0 \<or> unat (reader_size reader) < load_bound reader bufsize mod 2 ^ LENGTH('a) \<longrightarrow>
            sb_load_range al reader pos buf bufsize =
              Some (-1, Some (if bufsize = 0 then Invalid_buffer_size else Load_past_end), reader))
         \<and> (bufsize \<noteq> 0 \<and> load_bound reader bufsize mod 2 ^ LENGTH('a) \<le> unat (reader_size reader) \<longrightarrow>
              (\<forall>ret err rd. sb_load_range al reader pos buf bufsize = Some (ret, err, rd) \<longrightarrow>
                 (ret = 0 \<and> err = None) \<or>
                 (ret = -1 \<and> err \<in> {Some Alloc_new_range, Some Alloc_entry_buffer,
                                      Some Alloc_merged_buffer})) \<and>
              (reader_inv reader \<and> False \<notin> set al \<longrightarrow>
                 (\<exists>rd. sb_load_range al reader pos buf bufsize = Some (0, None, rd)) \<and>
                 (\<exists>rd. sb_load_range al reader pos' buf bufsize = Some (0, None, rd))))"
proof -
  have lt: "unat (reader_size reader) < load_bound reader bufsize mod 2 ^ LENGTH('a) \<longleftrightarrow>
      reader_size reader < reader_pos reader + bufsize"
    by (simp add: word_less_nat_alt load_bound_wraps)
  have le: "load_bound reader bufsize mod 2 ^ LENGTH('a) \<le> unat (reader_size reader) \<longleftrightarrow>
      reader_pos reader + bufsize \<le> reader_size reader"
    by (simp add: word_le_nat_alt load_bound_wraps)
  show ?thesis
    unfolding lt le
    using sb_load_range_rejects [of bufsize reader al pos buf]
      sb_load_range_errors [of bufsize reader al pos buf]
      sb_load_range_accepts [of bufsize reader al pos buf]
      sb_load_range_accepts [of bufsize reader al pos' buf]
    by blast
qed

theorem sb_load_range_validation_witness:
  "reader_inv load_reader \<and> False \<notin> set ([] :: allocator) \<and>
   load_bound load_reader 6 = 51 \<and> load_bound load_reader 5 = 50 \<and>
   unat (reader_size load_reader) = 50 \<and>
   sb_load_range [] load_reader 0 [7, 7, 7, 7, 7, 7] 6 = Some (-1, Some Load_past_end, load_reader) \<and>
   sb_load_range [] load_reader 21 [] 0 = Some (-1, Some Invalid_buffer_size, load_reader) \<and>
   (\<exists>rd. sb_load_range [] load_reader 47 [7, 7, 7, 7, 7] 5 = Some (0, None, rd)) \<and>
   (\<exists>rd. sb_load_range [] load_reader 21 [7, 7, 7, 7, 7] 5 = Some (0, None, rd))"
proof -
  have inv: "reader_inv load_reader"
    by (simp add: load_reader_def reader_inv_def ranges_within_def range_ok_def range_end_def)
  have lb: "load_bound load_reader 6 = 51" "load_bound load_reader 5 = 50"
    "unat (reader_size load_reader) = 50"
    by (simp_all add: load_bound_def load_reader_def)
  have a: "sb_load_range [] load_reader 0 [7, 7, 7, 7, 7, 7] 6 = Some (-1, Some Load_past_end, load_reader)"
    using sb_load_range_validation [of 6 load_reader "[]" 0 "[7, 7, 7, 7, 7, 7]" 0]
    by (simp add: lb)
  have b: "sb_load_range [] load_reader 21 [] 0 = Some (-1, Some Invalid_buffer_size, load_reader)"
    using sb_load_range_validation [of 0 load_reader "[]" 21 "[]" 0]
    by simp
  have c: "(\<exists>rd. sb_load_range [] load_reader 47 [7, 7, 7, 7, 7] 5 = Some (0, None, rd)) \<and>
   (\<exists>rd. sb_load_range [] load_reader 21 [7, 7, 7, 7, 7] 5 = Some (0, None, rd))"
    using sb_load_range_validation [of 5 load_reader "[]" 47 "[7, 7, 7, 7, 7]" 21] inv
    by (simp add: lb)
  from inv lb a b c show ?thesis by simp
qed

text \<open>
  Claim C8 as stated fails where cursor plus length reaches \<open>2 ^ 64\<close>: in a
  buffer of size \<open>2 ^ 64 - 1\<close> with the cursor at \<open>2 ^ 64 - 6\<close>, which satisfies the
  invariants, cursor plus 10 is \<open>2 ^ 64 + 4\<close>, beyond the size, and \<^verbatim>\<open>sb_load_range\<close>
  with 10 bytes returns 0 and stores the range.
\<close>

theorem sb_load_range_bound_counterexample:
  "reader_inv end_reader \<and>
   load_bound end_reader 10 = 18446744073709551620 \<and>
   unat (reader_size end_reader) = 18446744073709551615 \<and>
   unat (reader_size end_reader) < load_bound end_reader 10 \<and>
   sb_load_range [] end_reader 0 [1, 2, 3, 4, 5, 6, 7, 8, 9, 10] 10 =
     Some (0, None, end_reader\<lparr>ranges := [\<lparr>range_pos = 0, range_size = 10,
        range_data = [1, 2, 3, 4, 5, 6, 7, 8, 9, 10]\<rparr>]\<rparr>)"
proof -
  have w: "(18446744073709551620 :: 64 word) = 4" by (simp add: word_unat_eq_iff)
  show ?thesis
    by (simp add: end_reader_def reader_inv_def ranges_within_def load_bound_def
        sb_load_range_def alloc_ok_def alloc_next_def memcpy_def w)
qed

subsection \<open>Removing an interval\<close>

lemma separated_sorted_wrt:
  "separated rs = sorted_wrt (\<lambda>a b. range_end a < unat (range_pos b)) rs"
proof (induction rs)
  case Nil
  then show ?case by simp
next
  case (Cons e es)
  show ?case
  proof
    assume s: "separated (e # es)"
    then have "separated es" by (rule separated_tail)
    with Cons s show "sorted_wrt (\<lambda>a b. range_end a < unat (range_pos b)) (e # es)"
      by (auto dest: separated_Cons)
  next
    assume "sorted_wrt (\<lambda>a b. range_end a < unat (range_pos b)) (e # es)"
    with Cons show "separated (e # es)" by (cases es) auto
  qed
qed

lemma separated_replace:
  assumes "separated (xs @ e # ys)" "separated c"
    "\<forall>p\<in>set c. unat (range_pos e) \<le> unat (range_pos p) \<and> range_end p \<le> range_end e"
  shows "separated (xs @ c @ ys)"
  using assms unfolding separated_sorted_wrt sorted_wrt_append
  by (fastforce simp add: range_end_def)

lemma ranges_within_append:
  "ranges_within S (xs @ ys) = (ranges_within S xs \<and> ranges_within S ys)"
  by (simp add: ranges_within_def)

lemma unat_rngend:
  fixes r :: "'a::len word Range"
  assumes "range_ok r" "range_end r < 2 ^ LENGTH('a)"
  shows "unat (range_pos r + range_size r - 1) = range_end r - 1" and "0 < unat (range_size r)"
proof -
  from assms(1) show z: "0 < unat (range_size r)" by (simp add: range_ok_def unat_gt_0)
  have "unat (range_pos r + range_size r) = range_end r" by (rule unat_range_end [OF assms(2)])
  moreover from this z have "range_pos r + range_size r \<noteq> 0"
    by (auto simp add: range_end_def)
  ultimately show "unat (range_pos r + range_size r - 1) = range_end r - 1"
    by (simp add: unat_minus_one)
qed

lemma left_part_props:
  fixes r :: "'a::len word Range"
  assumes "range_ok r" "unat (range_pos r) < unat start" "unat start < range_end r"
  shows "range_ok (left_part start r)"
    and "range_pos (left_part start r) = range_pos r"
    and "range_end (left_part start r) = unat start"
    and "unat (start - range_pos r) = unat start - unat (range_pos r)"
proof -
  from assms(2) have "range_pos r \<le> start" by (simp add: word_le_nat_alt)
  then show u: "unat (start - range_pos r) = unat start - unat (range_pos r)" by (simp add: unat_sub)
  with assms(2) have "start - range_pos r \<noteq> 0"
    by (metis unat_eq_zero zero_less_diff less_numeral_extra(3))
  with assms u show "range_ok (left_part start r)"
    by (simp add: range_ok_def left_part_def range_end_def)
  show "range_pos (left_part start r) = range_pos r" by (simp add: left_part_def)
  from u assms(2) show "range_end (left_part start r) = unat start"
    by (simp add: range_end_def left_part_def)
qed

lemma right_part_props:
  fixes r :: "'a::len word Range"
  assumes "range_ok r" "range_end r < 2 ^ LENGTH('a)"
    "unat (range_pos r) \<le> unat end + 1" "unat end + 1 < range_end r"
  shows "range_ok (right_part end r)"
    and "unat (range_pos (right_part end r)) = unat end + 1"
    and "range_end (right_part end r) = range_end r"
    and "unat (end + 1) = unat end + 1"
    and "unat (range_pos r + range_size r - (end + 1)) = range_end r - (unat end + 1)"
proof -
  from assms(2,4) show e1: "unat (end + 1) = unat end + 1"
    by (simp add: unat_add_lem [THEN iffD1])
  have pe: "unat (range_pos r + range_size r) = range_end r" by (rule unat_range_end [OF assms(2)])
  with e1 assms(4) have "end + 1 \<le> range_pos r + range_size r" by (simp add: word_le_nat_alt)
  then show u: "unat (range_pos r + range_size r - (end + 1)) = range_end r - (unat end + 1)"
    by (simp add: unat_sub pe e1)
  with assms(4) have "range_pos r + range_size r - (end + 1) \<noteq> 0"
    by (metis unat_eq_zero zero_less_diff less_numeral_extra(3))
  with assms u show "range_ok (right_part end r)"
    by (simp add: range_ok_def right_part_def range_end_def)
  from e1 show "unat (range_pos (right_part end r)) = unat end + 1" by (simp add: right_part_def)
  from u e1 assms(4) show "range_end (right_part end r) = range_end r"
    by (simp add: range_end_def right_part_def)
qed

lemma cut_pieces:
  fixes r :: "'a::len word Range"
  assumes ok: "range_ok r" and nw: "range_end r < 2 ^ LENGTH('a)" and se: "unat start \<le> unat end"
  shows "\<forall>p\<in>set (cut start end r).
           range_ok p \<and> unat (range_pos r) \<le> unat (range_pos p) \<and> range_end p \<le> range_end r"
    and "separated (cut start end r)"
proof -
  show "\<forall>p\<in>set (cut start end r).
           range_ok p \<and> unat (range_pos r) \<le> unat (range_pos p) \<and> range_end p \<le> range_end r"
    using ok se
    by (auto simp add: cut_def left_part_props right_part_props [OF ok nw] not_le not_less)
  show "separated (cut start end r)"
    using ok se
    by (auto simp add: cut_def left_part_props right_part_props [OF ok nw] not_le not_less)
qed

lemma loaded_left_part:
  fixes r :: "'a::len word Range"
  assumes "range_ok r" "unat (range_pos r) < unat start" "unat start < range_end r"
  shows "loaded (left_part start r # rest) x =
           (if unat (range_pos r) \<le> x \<and> x < unat start
            then Some (range_data r ! (x - unat (range_pos r))) else loaded rest x)"
  using left_part_props [OF assms] by (auto simp add: left_part_def)

lemma loaded_right_part:
  fixes r :: "'a::len word Range"
  assumes "range_ok r" "range_end r < 2 ^ LENGTH('a)"
    "unat (range_pos r) \<le> unat end + 1" "unat end + 1 < range_end r"
  shows "loaded (right_part end r # rest) x =
           (if unat end < x \<and> x < range_end r
            then Some (range_data r ! (x - unat (range_pos r))) else loaded rest x)"
  using right_part_props [OF assms] assms(1,3)
  by (auto simp add: right_part_def range_ok_def range_end_def)

lemma loaded_cut:
  fixes r :: "'a::len word Range"
  assumes ok: "range_ok r" and nw: "range_end r < 2 ^ LENGTH('a)" and se: "unat start \<le> unat end"
  shows "loaded (cut start end r @ rest) x =
           (if unat start \<le> x \<and> x \<le> unat end then loaded rest x else loaded (r # rest) x)"
proof -
  let ?P = "unat (range_pos r)" and ?E = "range_end r" and ?s = "unat start" and ?e = "unat end"
  consider (keep) "?E \<le> ?s \<or> ?e < ?P"
    | (gone) "?s < ?E" "?P \<le> ?e" "?s \<le> ?P" "?E \<le> ?e + 1"
    | (split) "?P < ?s" "?e + 1 < ?E"
    | (left) "?s < ?E" "?P < ?s" "?E \<le> ?e + 1"
    | (right) "?P \<le> ?e" "?s \<le> ?P" "?e + 1 < ?E"
    by linarith
  then show ?thesis
  proof cases
    case keep
    then show ?thesis using se by (auto simp add: cut_def)
  next
    case gone
    then show ?thesis by (auto simp add: cut_def)
  next
    case split
    then have c: "cut start end r = [left_part start r, right_part end r]"
      using se by (simp add: cut_def)
    from split se have "?s < ?E" "?P \<le> ?e + 1" by simp_all
    with split show ?thesis
      unfolding c using se
      by (simp add: loaded_left_part [OF ok] loaded_right_part [OF ok nw] del: loaded.simps)
        (auto simp add: range_end_def)
  next
    case left
    then have c: "cut start end r = [left_part start r]" by (simp add: cut_def)
    from left show ?thesis
      unfolding c using se
      by (simp add: loaded_left_part [OF ok] del: loaded.simps) auto
  next
    case right
    then have c: "cut start end r = [right_part end r]" by (simp add: cut_def)
    from right show ?thesis
      unfolding c using se
      by (simp add: loaded_right_part [OF ok nw] del: loaded.simps) auto
  qed
qed

lemma loaded_cut_all:
  fixes rs :: "'a::len word Range list"
  assumes "\<forall>r\<in>set rs. range_ok r \<and> range_end r < 2 ^ LENGTH('a)" "unat start \<le> unat end"
  shows "loaded (concat (map (cut start end) rs)) x =
           (if unat start \<le> x \<and> x \<le> unat end then None else loaded rs x)"
  using assms
proof (induction rs)
  case Nil
  then show ?case by simp
next
  case (Cons r rs)
  then have "loaded (cut start end r @ concat (map (cut start end) rs)) x =
      (if unat start \<le> x \<and> x \<le> unat end then loaded (concat (map (cut start end) rs)) x
       else loaded (r # concat (map (cut start end) rs)) x)"
    by (intro loaded_cut) simp_all
  with Cons show ?case by simp
qed


lemma right_part_eq:
  fixes e :: "'a::len word Range"
  assumes ok: "range_ok e" and nw: "range_end e < 2 ^ LENGTH('a)"
    and lo: "unat (range_pos e) \<le> unat end + 1" and hi: "unat end + 1 < range_end e"
  shows "\<lparr>range_pos = end + 1, range_size = range_pos e + range_size e - 1 + 1 - (end + 1),
          range_data = memcpy (range_data e) (unat (end + 1 - range_pos e))
                         (unat (range_pos e + range_size e - 1 + 1 - (end + 1)))\<rparr> =
         right_part end e"
    and "e\<lparr>range_size := range_size e - (end + 1 - range_pos e), range_pos := end + 1,
           range_data := memcpy (range_data e)
             (unat (range_size e - (range_size e - (end + 1 - range_pos e))))
             (unat (range_size e - (end + 1 - range_pos e)))\<rparr> = right_part end e"
    and "\<lparr>range_pos = end + 1, range_size = range_pos e + range_size e - (end + 1),
          range_data = memcpy (range_data e) (unat (end + 1 - range_pos e))
                         (unat (range_pos e + range_size e - (end + 1)))\<rparr> =
         right_part end e"
proof -
  note rp = right_part_props [OF ok nw lo hi]
  have w1: "range_pos e + range_size e - 1 + 1 - (end + 1) = range_pos e + range_size e - (end + 1)"
    by simp
  have w2: "range_size e - (end + 1 - range_pos e) = range_pos e + range_size e - (end + 1)"
    by simp
  have w3: "range_size e - (range_size e - (end + 1 - range_pos e)) = end + 1 - range_pos e"
    by simp
  have "range_pos e \<le> end + 1" using lo rp(4) by (simp add: word_le_nat_alt)
  then have off: "unat (end + 1 - range_pos e) = unat end + 1 - unat (range_pos e)"
    by (simp add: unat_sub rp(4))
  have len: "length (range_data e) = unat (range_size e)" using ok by (simp add: range_ok_def)
  have tk: "take (range_end e - (unat end + 1)) (drop (unat end + 1 - unat (range_pos e)) (range_data e))
      = drop (unat end + 1 - unat (range_pos e)) (range_data e)"
  proof (rule take_all)
    show "length (drop (unat end + 1 - unat (range_pos e)) (range_data e)) \<le> range_end e - (unat end + 1)"
      using len lo hi unfolding range_end_def length_drop by linarith
  qed
  have lb: "length (range_data e) - (Suc (unat end) - unat (range_pos e)) \<le> range_end e - Suc (unat end)"
    using len lo hi unfolding range_end_def by linarith
  show "\<lparr>range_pos = end + 1, range_size = range_pos e + range_size e - 1 + 1 - (end + 1),
          range_data = memcpy (range_data e) (unat (end + 1 - range_pos e))
                         (unat (range_pos e + range_size e - 1 + 1 - (end + 1)))\<rparr> =
         right_part end e"
    unfolding w1 by (simp add: right_part_def memcpy_def off rp(5) lb)
  show "e\<lparr>range_size := range_size e - (end + 1 - range_pos e), range_pos := end + 1,
           range_data := memcpy (range_data e)
             (unat (range_size e - (range_size e - (end + 1 - range_pos e))))
             (unat (range_size e - (end + 1 - range_pos e)))\<rparr> = right_part end e"
    unfolding w3 w2 by (simp add: right_part_def memcpy_def off rp(5) lb)
  show "\<lparr>range_pos = end + 1, range_size = range_pos e + range_size e - (end + 1),
          range_data = memcpy (range_data e) (unat (end + 1 - range_pos e))
                         (unat (range_pos e + range_size e - (end + 1)))\<rparr> =
         right_part end e"
    by (simp add: right_part_def memcpy_def off rp(5) lb)
qed

lemma left_part_eq:
  fixes e :: "'a::len word Range"
  assumes ok: "range_ok e" and lo: "unat (range_pos e) < unat start" and hi: "unat start < range_end e"
  shows "e\<lparr>range_size := start - range_pos e,
           range_data := memcpy (range_data e) 0 (unat (start - range_pos e))\<rparr> = left_part start e"
  using left_part_props(4) [OF assms] by (simp add: left_part_def memcpy_def)

lemma remove_step_cut:
  fixes reader :: "'a::len word SBReader"
  assumes i: "i < length (ranges reader)"
    and ok: "range_ok (ranges reader ! i)" and nw: "range_end (ranges reader ! i) < 2 ^ LENGTH('a)"
    and d: "distinct (map range_pos (ranges reader))"
    and se: "unat start \<le> unat end" and good: "False \<notin> set al"
  shows "unat end < unat (range_pos (ranges reader ! i)) \<longrightarrow>
           remove_step al start end reader i = Return (0, None, reader)"
    and "unat (range_pos (ranges reader ! i)) \<le> unat end \<longrightarrow>
           (\<exists>al'. False \<notin> set al' \<and>
              remove_step al start end reader i =
                Continue al'
                  (reader\<lparr>ranges := take i (ranges reader) @ cut start end (ranges reader ! i) @
                                      drop (Suc i) (ranges reader)\<rparr>)
                  (i + length (cut start end (ranges reader ! i))))"
proof -
  let ?rs = "ranges reader"
  let ?e = "?rs ! i"
  let ?P = "unat (range_pos ?e)" and ?E = "range_end ?e" and ?s = "unat start" and ?e' = "unat end"
  note re = unat_rngend [OF ok nw]
  have E1: "?P < ?E" using re(2) by (simp add: range_end_def)
  have ri: "range_index ?rs (range_pos ?e) = Some i" by (rule range_index_distinct [OF d i])
  have ok1: "alloc_ok al" and ok2: "alloc_ok (alloc_next al)"
    and ok3: "alloc_ok (alloc_next (alloc_next al))"
    and g1: "False \<notin> set (alloc_next al)"
    and g3: "False \<notin> set (alloc_next (alloc_next (alloc_next al)))"
    using good by (simp_all add: alloc_ok_good alloc_next_good)
  have id: "take i ?rs @ ?e # drop (Suc i) ?rs = ?rs" using i by (simp add: id_take_nth_drop [symmetric])
  show "?e' < ?P \<longrightarrow> remove_step al start end reader i = Return (0, None, reader)"
    using i by (simp add: remove_step_def Let_def word_less_nat_alt)
  show "?P \<le> ?e' \<longrightarrow>
           (\<exists>al'. False \<notin> set al' \<and>
              remove_step al start end reader i =
                Continue al'
                  (reader\<lparr>ranges := take i ?rs @ cut start end ?e @ drop (Suc i) ?rs\<rparr>)
                  (i + length (cut start end ?e)))"
  proof
    assume Pe: "?P \<le> ?e'"
    then have na: "\<not> end < range_pos ?e" by (simp add: word_less_nat_alt)
    consider (before) "?E \<le> ?s"
      | (gone) "?s < ?E" "?s \<le> ?P" "?E \<le> ?e' + 1"
      | (split) "?P < ?s" "?e' + 1 < ?E"
      | (left) "?s < ?E" "?P < ?s" "?E \<le> ?e' + 1"
      | (right) "?s \<le> ?P" "?e' + 1 < ?E"
      by linarith
    then show "\<exists>al'. False \<notin> set al' \<and>
              remove_step al start end reader i =
                Continue al'
                  (reader\<lparr>ranges := take i ?rs @ cut start end ?e @ drop (Suc i) ?rs\<rparr>)
                  (i + length (cut start end ?e))"
    proof cases
      case before
      then have c: "cut start end ?e = [?e]" by (simp add: cut_def)
      have b: "range_pos ?e + range_size ?e - 1 < start"
        using before E1 by (simp add: word_less_nat_alt re(1))
      have "remove_step al start end reader i = Continue al reader (Suc i)"
        using i na b by (simp add: remove_step_def Let_def)
      then show ?thesis using good by (intro exI [of _ al]) (simp add: c id)
    next
      case gone
      then have c: "cut start end ?e = []" using Pe by (simp add: cut_def)
      have b: "\<not> range_pos ?e + range_size ?e - 1 < start"
        using gone by (simp add: word_less_nat_alt re(1))
      have inr: "start \<le> range_pos ?e" "range_pos ?e + range_size ?e - 1 \<le> end"
        using gone by (simp_all add: word_le_nat_alt re(1))
      have "remove_step al start end reader i =
          Continue al (reader\<lparr>ranges := take i ?rs @ drop (Suc i) ?rs\<rparr>) i"
        using i na b inr by (simp add: remove_step_def Let_def range_remove_def ri)
      then show ?thesis using good by (intro exI [of _ al]) (simp add: c)
    next
      case split
      then have c: "cut start end ?e = [left_part start ?e, right_part end ?e]"
        using se by (simp add: cut_def)
      from split se have sE: "?s < ?E" and Pe1: "?P \<le> ?e' + 1" by simp_all
      have b: "\<not> range_pos ?e + range_size ?e - 1 < start"
        using split se by (simp add: word_less_nat_alt re(1))
      have inr: "\<not> start \<le> range_pos ?e"
        using split by (simp add: word_le_nat_alt)
      have sp: "end < range_pos ?e + range_size ?e - 1" "range_pos ?e < start"
        using split by (simp_all add: word_less_nat_alt re(1))
      note R = right_part_eq(1) [OF ok nw Pe1 split(2)]
      note L = left_part_eq [OF ok split(1) sE]
      have upd: "(take (Suc i) ?rs @ right_part end ?e # drop (Suc i) ?rs)[i := left_part start ?e] =
          take i ?rs @ [left_part start ?e, right_part end ?e] @ drop (Suc i) ?rs"
        using i by (simp add: take_Suc_conv_app_nth list_update_append)
      have "remove_step al start end reader i =
          Continue (alloc_next (alloc_next (alloc_next al)))
            (reader\<lparr>ranges := (take (Suc i) ?rs @
               \<lparr>range_pos = end + 1, range_size = range_pos ?e + range_size ?e - 1 + 1 - (end + 1),
                range_data = memcpy (range_data ?e) (unat (end + 1 - range_pos ?e))
                         (unat (range_pos ?e + range_size ?e - 1 + 1 - (end + 1)))\<rparr> #
               drop (Suc i) ?rs)
               [i := ?e\<lparr>range_size := start - range_pos ?e,
                   range_data := memcpy (range_data ?e) 0 (unat (start - range_pos ?e))\<rparr>]\<rparr>)
            (i + 2)"
        using i na b inr sp ok1 ok2 ok3
        by (simp add: remove_step_def Let_def ri)
      then have "remove_step al start end reader i =
          Continue (alloc_next (alloc_next (alloc_next al)))
            (reader\<lparr>ranges := take i ?rs @ [left_part start ?e, right_part end ?e] @ drop (Suc i) ?rs\<rparr>)
            (i + 2)"
        unfolding R L upd .
      then show ?thesis using g3
        by (intro exI [of _ "alloc_next (alloc_next (alloc_next al))"]) (simp add: c)
    next
      case left
      then have c: "cut start end ?e = [left_part start ?e]" by (simp add: cut_def)
      have b: "\<not> range_pos ?e + range_size ?e - 1 < start"
        using left by (simp add: word_less_nat_alt re(1))
      have inr: "\<not> start \<le> range_pos ?e"
        using left by (simp add: word_le_nat_alt)
      have sp: "\<not> end < range_pos ?e + range_size ?e - 1" "range_pos ?e < start"
        using left by (simp_all add: word_less_nat_alt re(1))
      note L = left_part_eq [OF ok left(2) left(1)]
      have upd: "?rs[i := left_part start ?e] = take i ?rs @ [left_part start ?e] @ drop (Suc i) ?rs"
        using i by (simp add: upd_conv_take_nth_drop)
      have "remove_step al start end reader i =
          Continue (alloc_next al)
            (reader\<lparr>ranges := ?rs[i := ?e\<lparr>range_size := start - range_pos ?e,
                   range_data := memcpy (range_data ?e) 0 (unat (start - range_pos ?e))\<rparr>]\<rparr>) (Suc i)"
        using i na b inr sp ok1
        by (simp add: remove_step_def Let_def)
      then have "remove_step al start end reader i =
          Continue (alloc_next al)
            (reader\<lparr>ranges := take i ?rs @ [left_part start ?e] @ drop (Suc i) ?rs\<rparr>) (Suc i)"
        unfolding L upd .
      then show ?thesis using g1 by (intro exI [of _ "alloc_next al"]) (simp add: c)
    next
      case right
      then have c: "cut start end ?e = [right_part end ?e]" using Pe by (simp add: cut_def)
      have b: "\<not> range_pos ?e + range_size ?e - 1 < start"
        using right se by (simp add: word_less_nat_alt re(1))
      have inr: "start \<le> range_pos ?e" "\<not> range_pos ?e + range_size ?e - 1 \<le> end"
        using right by (simp_all add: word_le_nat_alt re(1))
      have sp: "end < range_pos ?e + range_size ?e - 1" "\<not> range_pos ?e < start"
        using right by (simp_all add: word_less_nat_alt re(1))
      from Pe have Pe1: "?P \<le> ?e' + 1" by simp
      note R = right_part_eq(2) [OF ok nw Pe1 right(2)]
      have upd: "?rs[i := right_part end ?e] = take i ?rs @ [right_part end ?e] @ drop (Suc i) ?rs"
        using i by (simp add: upd_conv_take_nth_drop)
      have "remove_step al start end reader i =
          Continue (alloc_next al)
            (reader\<lparr>ranges := ?rs[i := ?e\<lparr>range_size := range_size ?e - (end + 1 - range_pos ?e),
               range_pos := end + 1,
               range_data := memcpy (range_data ?e)
                 (unat (range_size ?e - (range_size ?e - (end + 1 - range_pos ?e))))
                 (unat (range_size ?e - (end + 1 - range_pos ?e)))\<rparr>]\<rparr>) (Suc i)"
        using i na b inr sp ok1
        by (simp add: remove_step_def Let_def)
      then have "remove_step al start end reader i =
          Continue (alloc_next al)
            (reader\<lparr>ranges := take i ?rs @ [right_part end ?e] @ drop (Suc i) ?rs\<rparr>) (Suc i)"
        unfolding R upd .
      then show ?thesis using g1 by (intro exI [of _ "alloc_next al"]) (simp add: c)
    qed
  qed
qed


lemma ranges_within_nth:
  fixes rs :: "'a::len word Range list"
  assumes "ranges_within S rs" "S < 2 ^ LENGTH('a)" "i < length rs"
  shows "range_ok (rs ! i)" "range_end (rs ! i) < 2 ^ LENGTH('a)" "range_end (rs ! i) \<le> S"
  using assms by (auto simp add: ranges_within_def list_all_length)

lemma replace_cut_inv:
  fixes rs :: "'a::len word Range list"
  assumes within: "ranges_within S rs" and sep: "separated rs" and S2: "S < 2 ^ LENGTH('a)"
    and i: "i < length rs" and se: "unat start \<le> unat end"
  shows "ranges_within S (take i rs @ cut start end (rs ! i) @ drop (Suc i) rs)"
    and "separated (take i rs @ cut start end (rs ! i) @ drop (Suc i) rs)"
proof -
  note n = ranges_within_nth [OF within S2 i]
  note cp = cut_pieces [OF n(1) n(2) se]
  have id: "take i rs @ rs ! i # drop (Suc i) rs = rs" using i by (simp add: id_take_nth_drop [symmetric])
  from within have "ranges_within S (take i rs @ rs ! i # drop (Suc i) rs)" by (simp only: id)
  then have "ranges_within S (take i rs)" "ranges_within S (drop (Suc i) rs)"
    by (simp_all add: ranges_within_def)
  moreover have "ranges_within S (cut start end (rs ! i))"
    using cp(1) n(3) by (auto simp add: ranges_within_def list_all_iff)
  ultimately show "ranges_within S (take i rs @ cut start end (rs ! i) @ drop (Suc i) rs)"
    by (simp add: ranges_within_append)
  from sep have "separated (take i rs @ rs ! i # drop (Suc i) rs)" by (simp only: id)
  then show "separated (take i rs @ cut start end (rs ! i) @ drop (Suc i) rs)"
    using cp by (intro separated_replace) auto
qed

lemma cut_after:
  fixes rs :: "'a::len word Range list"
  assumes "\<forall>r\<in>set rs. unat end < unat (range_pos r)"
  shows "concat (map (cut start end) rs) = rs"
  using assms by (induction rs) (auto simp add: cut_def)

lemma separated_drop_pos:
  assumes "separated rs" "i < length rs" "r \<in> set (drop i rs)"
  shows "unat (range_pos (rs ! i)) \<le> unat (range_pos r)"
proof -
  from assms(2) have d: "drop i rs = rs ! i # drop (Suc i) rs" by (simp add: Cons_nth_drop_Suc)
  from assms(1) have "separated (take i rs @ drop i rs)" by simp
  then have "separated (drop i rs)"
    unfolding separated_sorted_wrt sorted_wrt_append by simp
  with d have "separated (rs ! i # drop (Suc i) rs)" by simp
  with assms(3) d show ?thesis
    using separated_Cons [of "rs ! i" "drop (Suc i) rs" r] range_end_ge [of "rs ! i"] by auto
qed

lemma remove_loop_cut:
  fixes reader :: "'a::len word SBReader"
  assumes "ranges_within S (ranges reader)" "separated (ranges reader)" "S < 2 ^ LENGTH('a)"
    "unat start \<le> unat end" "False \<notin> set al" "i \<le> length (ranges reader)"
  shows "remove_loop al start end reader i =
           Some (0, None, reader\<lparr>ranges := take i (ranges reader) @
                   concat (map (cut start end) (drop i (ranges reader)))\<rparr>) \<and>
         ranges_within S (take i (ranges reader) @
                   concat (map (cut start end) (drop i (ranges reader)))) \<and>
         separated (take i (ranges reader) @
                   concat (map (cut start end) (drop i (ranges reader))))"
  using assms
proof (induction "length (ranges reader) - i" arbitrary: reader i al rule: less_induct)
  case less
  let ?rs = "ranges reader"
  note within = less.prems(1) and sep = less.prems(2) and S2 = less.prems(3)
    and se = less.prems(4) and good = less.prems(5)
  show ?case
  proof (cases "i < length ?rs")
    case False
    with less.prems(6) have "i = length ?rs" by simp
    then have "remove_step al start end reader i = Return (0, None, reader)"
      by (simp add: remove_step_def)
    then have "remove_loop al start end reader i = Some (0, None, reader)"
      by (subst remove_loop.simps) simp
    with \<open>i = length ?rs\<close> within sep show ?thesis by simp
  next
    case i: True
    let ?e = "?rs ! i"
    note n = ranges_within_nth [OF within S2 i]
    have d: "distinct (map range_pos ?rs)"
      by (intro pos_sorted_distinct separated_pos_sorted sep)
    note st = remove_step_cut [OF i n(1) n(2) d se good]
    have dr: "drop i ?rs = ?e # drop (Suc i) ?rs" using i by (simp add: Cons_nth_drop_Suc)
    show ?thesis
    proof (cases "unat end < unat (range_pos ?e)")
      case True
      with st(1) have "remove_step al start end reader i = Return (0, None, reader)" by simp
      then have "remove_loop al start end reader i = Some (0, None, reader)"
        by (subst remove_loop.simps) simp
      moreover have "concat (map (cut start end) (drop i ?rs)) = drop i ?rs"
        using separated_drop_pos [OF sep i] True by (intro cut_after) fastforce
      ultimately show ?thesis using within sep by simp
    next
      case False
      let ?c = "cut start end ?e"
      let ?rs' = "take i ?rs @ ?c @ drop (Suc i) ?rs"
      let ?rd' = "reader\<lparr>ranges := ?rs'\<rparr>"
      from False st(2) obtain al' where good': "False \<notin> set al'"
        and step: "remove_step al start end reader i = Continue al' ?rd' (i + length ?c)"
        by auto
      note inv' = replace_cut_inv [OF within sep S2 i se]
      have len: "length (take i ?rs) = i" using i by simp
      have tk: "take (i + length ?c) ?rs' = take i ?rs @ ?c"
        using len by (simp add: take_append)
      have dp: "drop (i + length ?c) ?rs' = drop (Suc i) ?rs"
        using len by (simp add: drop_append)
      have "remove_loop al' start end ?rd' (i + length ?c) =
           Some (0, None, ?rd'\<lparr>ranges := take (i + length ?c) (ranges ?rd') @
                   concat (map (cut start end) (drop (i + length ?c) (ranges ?rd')))\<rparr>) \<and>
         ranges_within S (take (i + length ?c) (ranges ?rd') @
                   concat (map (cut start end) (drop (i + length ?c) (ranges ?rd')))) \<and>
         separated (take (i + length ?c) (ranges ?rd') @
                   concat (map (cut start end) (drop (i + length ?c) (ranges ?rd'))))"
        using inv' S2 se good' i by (intro less.hyps) simp_all
      moreover have r': "ranges ?rd' = ?rs'" by simp
      ultimately have ih: "remove_loop al' start end ?rd' (i + length ?c) =
           Some (0, None, reader\<lparr>ranges := take i ?rs @ concat (map (cut start end) (drop i ?rs))\<rparr>)"
        "ranges_within S (take i ?rs @ concat (map (cut start end) (drop i ?rs)))"
        "separated (take i ?rs @ concat (map (cut start end) (drop i ?rs)))"
        unfolding r' tk dp by (simp_all add: dr)
      have "remove_loop al start end reader i = remove_loop al' start end ?rd' (i + length ?c)"
        by (subst remove_loop.simps) (simp add: step)
      with ih show ?thesis by simp
    qed
  qed
qed


lemma reader_inv_parts:
  fixes reader :: "'a::len word SBReader"
  assumes "reader_inv reader"
  shows "ranges_within (unat (reader_size reader)) (ranges reader)" "separated (ranges reader)"
    "unat (reader_pos reader) \<le> unat (reader_size reader)"
    "\<forall>r\<in>set (ranges reader). range_ok r \<and> range_end r < 2 ^ LENGTH('a)"
proof -
  from assms show w: "ranges_within (unat (reader_size reader)) (ranges reader)"
    and "separated (ranges reader)" and "unat (reader_pos reader) \<le> unat (reader_size reader)"
    by (simp_all add: reader_inv_def word_le_nat_alt)
  show "\<forall>r\<in>set (ranges reader). range_ok r \<and> range_end r < 2 ^ LENGTH('a)"
  proof
    fix r assume "r \<in> set (ranges reader)"
    with w have "range_ok r" "range_end r \<le> unat (reader_size reader)"
      by (simp_all add: ranges_within_def list_all_iff)
    moreover have "unat (reader_size reader) < 2 ^ LENGTH('a)" by simp
    ultimately show "range_ok r \<and> range_end r < 2 ^ LENGTH('a)" by (meson le_less_trans)
  qed
qed

lemma sb_remove_range_cut:
  fixes reader :: "'a::len word SBReader"
  assumes inv: "reader_inv reader" and good: "False \<notin> set al"
    and v: "end < reader_size reader" "start \<le> end"
  shows "sb_remove_range al reader start end =
           Some (0, None, reader\<lparr>ranges := concat (map (cut start end) (ranges reader))\<rparr>)"
    and "reader_inv (reader\<lparr>ranges := concat (map (cut start end) (ranges reader))\<rparr>)"
    and "loaded (concat (map (cut start end) (ranges reader))) x =
           (if unat start \<le> x \<and> x \<le> unat end then None else loaded (ranges reader) x)"
proof -
  note p = reader_inv_parts [OF inv]
  from v have se: "unat start \<le> unat end" by (simp add: word_le_nat_alt)
  have S2: "unat (reader_size reader) < 2 ^ LENGTH('a)" by simp
  from remove_loop_cut [OF p(1) p(2) S2 se good, of 0]
  have l: "remove_loop al start end reader 0 =
           Some (0, None, reader\<lparr>ranges := concat (map (cut start end) (ranges reader))\<rparr>)"
    "ranges_within (unat (reader_size reader)) (concat (map (cut start end) (ranges reader)))"
    "separated (concat (map (cut start end) (ranges reader)))"
    by simp_all
  from l(1) v show "sb_remove_range al reader start end =
           Some (0, None, reader\<lparr>ranges := concat (map (cut start end) (ranges reader))\<rparr>)"
    by (simp add: sb_remove_range_def not_le not_less)
  from l(2,3) inv show "reader_inv (reader\<lparr>ranges := concat (map (cut start end) (ranges reader))\<rparr>)"
    by (simp add: reader_inv_def)
  show "loaded (concat (map (cut start end) (ranges reader))) x =
           (if unat start \<le> x \<and> x \<le> unat end then None else loaded (ranges reader) x)"
    by (rule loaded_cut_all [OF p(4) se])
qed

text \<open>
  Claim C4. \<^verbatim>\<open>sb_remove_range\<close> rejects \<open>end \<ge> size\<close> and \<open>end < start\<close> with -1 and
  leaves the reader unchanged. Otherwise, in a state satisfying the invariants and with
  the allocations succeeding, it returns 0 and replaces every range by what \<open>cut\<close>
  leaves of it, in place and in order: a range inside the interval is deleted, a range
  strictly containing it is split into its left and right remainders, the right one
  next after the left one, and a range reaching over one boundary is truncated to its
  prefix or suffix. Every offset of \<open>[start, end]\<close> is unloaded afterwards, every
  other offset is loaded exactly when it was and with the same byte, and the invariants
  still hold.
\<close>

theorem sb_remove_range_correct:
  fixes reader :: "'a::len word SBReader"
  assumes inv: "reader_inv reader" and good: "False \<notin> set al"
  shows "(reader_size reader \<le> end \<or> end < start \<longrightarrow>
            sb_remove_range al reader start end = Some (-1, Some Invalid_range, reader))
         \<and> (end < reader_size reader \<and> start \<le> end \<longrightarrow>
              sb_remove_range al reader start end =
                Some (0, None, reader\<lparr>ranges := concat (map (cut start end) (ranges reader))\<rparr>) \<and>
              reader_inv (reader\<lparr>ranges := concat (map (cut start end) (ranges reader))\<rparr>) \<and>
              (\<forall>x. loaded (concat (map (cut start end) (ranges reader))) x =
                 (if unat start \<le> x \<and> x \<le> unat end then None else loaded (ranges reader) x)))"
proof -
  have "reader_size reader \<le> end \<or> end < start \<longrightarrow>
            sb_remove_range al reader start end = Some (-1, Some Invalid_range, reader)"
    by (auto simp add: sb_remove_range_def)
  moreover have "end < reader_size reader \<and> start \<le> end \<longrightarrow>
              sb_remove_range al reader start end =
                Some (0, None, reader\<lparr>ranges := concat (map (cut start end) (ranges reader))\<rparr>) \<and>
              reader_inv (reader\<lparr>ranges := concat (map (cut start end) (ranges reader))\<rparr>) \<and>
              (\<forall>x. loaded (concat (map (cut start end) (ranges reader))) x =
                 (if unat start \<le> x \<and> x \<le> unat end then None else loaded (ranges reader) x))"
    using sb_remove_range_cut [OF inv good] by blast
  ultimately show ?thesis by (rule conjI)
qed

lemma remove_reader_inv: "reader_inv remove_reader"
  by (simp add: remove_reader_def reader_inv_def ranges_within_def range_ok_def range_end_def)

theorem sb_remove_range_correct_witness:
  "reader_inv remove_reader \<and> False \<notin> set ([] :: allocator) \<and>
   sb_remove_range [] remove_reader 3 10 =
     Some (0, None, \<lparr>reader_pos = 0, reader_size = 20,
       ranges = [\<lparr>range_pos = 2, range_size = 1, range_data = [1]\<rparr>,
                 \<lparr>range_pos = 11, range_size = 3, range_data = [7, 8, 9]\<rparr>]\<rparr>) \<and>
   sb_remove_range [] remove_reader 9 10 =
     Some (0, None, \<lparr>reader_pos = 0, reader_size = 20,
       ranges = [\<lparr>range_pos = 2, range_size = 3, range_data = [1, 2, 3]\<rparr>,
                 \<lparr>range_pos = 8, range_size = 1, range_data = [4]\<rparr>,
                 \<lparr>range_pos = 11, range_size = 3, range_data = [7, 8, 9]\<rparr>]\<rparr>) \<and>
   sb_remove_range [] remove_reader 0 19 =
     Some (0, None, \<lparr>reader_pos = 0, reader_size = 20, ranges = []\<rparr>) \<and>
   sb_remove_range [] remove_reader 5 20 = Some (-1, Some Invalid_range, remove_reader)"
proof -
  have good: "False \<notin> set ([] :: allocator)" by simp
  have a: "sb_remove_range [] remove_reader 3 10 =
     Some (0, None, \<lparr>reader_pos = 0, reader_size = 20,
       ranges = [\<lparr>range_pos = 2, range_size = 1, range_data = [1]\<rparr>,
                 \<lparr>range_pos = 11, range_size = 3, range_data = [7, 8, 9]\<rparr>]\<rparr>)"
    using sb_remove_range_correct [OF remove_reader_inv good, of 10 3]
    by (simp add: remove_reader_def cut_def left_part_def right_part_def range_end_def)
  have b: "sb_remove_range [] remove_reader 9 10 =
     Some (0, None, \<lparr>reader_pos = 0, reader_size = 20,
       ranges = [\<lparr>range_pos = 2, range_size = 3, range_data = [1, 2, 3]\<rparr>,
                 \<lparr>range_pos = 8, range_size = 1, range_data = [4]\<rparr>,
                 \<lparr>range_pos = 11, range_size = 3, range_data = [7, 8, 9]\<rparr>]\<rparr>)"
    using sb_remove_range_correct [OF remove_reader_inv good, of 10 9]
    by (simp add: remove_reader_def cut_def left_part_def right_part_def range_end_def)
  have c: "sb_remove_range [] remove_reader 0 19 =
     Some (0, None, \<lparr>reader_pos = 0, reader_size = 20, ranges = []\<rparr>)"
    using sb_remove_range_correct [OF remove_reader_inv good, of 19 0]
    by (simp add: remove_reader_def cut_def left_part_def right_part_def range_end_def)
  have d: "sb_remove_range [] remove_reader 5 20 = Some (-1, Some Invalid_range, remove_reader)"
    using sb_remove_range_correct [OF remove_reader_inv good, of 20 5]
    by (simp add: remove_reader_def)
  from remove_reader_inv good a b c d show ?thesis by simp
qed

subsection \<open>Resizing\<close>

lemma cut_tail_within:
  fixes r :: "'a::len word Range"
  assumes ok: "range_ok r" and nw: "range_end r < 2 ^ LENGTH('a)"
    and rS: "range_end r \<le> unat end + 1" and se: "unat start \<le> unat end"
  shows "\<forall>p\<in>set (cut start end r). range_ok p \<and> range_end p \<le> unat start"
proof -
  from ok have "0 < unat (range_size r)" by (simp add: range_ok_def unat_gt_0)
  then have PE: "unat (range_pos r) < range_end r" by (simp add: range_end_def)
  show ?thesis
    using ok rS se PE
    by (auto simp add: cut_def left_part_props not_le not_less)
qed

lemma sb_resize_shrink:
  fixes reader :: "'a::len word SBReader"
  assumes inv: "reader_inv reader" and good: "False \<notin> set al"
    and n0: "newsize \<noteq> 0" and lt: "newsize < reader_size reader"
  shows "sb_resize al reader newsize =
           Some (0, None,
             reader\<lparr>ranges := concat (map (cut newsize (reader_size reader - 1)) (ranges reader)),
                    reader_pos := (if newsize < reader_pos reader then newsize else reader_pos reader),
                    reader_size := newsize\<rparr>)"
    and "reader_inv
           (reader\<lparr>ranges := concat (map (cut newsize (reader_size reader - 1)) (ranges reader)),
                   reader_pos := (if newsize < reader_pos reader then newsize else reader_pos reader),
                   reader_size := newsize\<rparr>)"
    and "loaded (concat (map (cut newsize (reader_size reader - 1)) (ranges reader))) x =
           (if unat newsize \<le> x then None else loaded (ranges reader) x)"
proof -
  let ?end = "reader_size reader - 1"
  let ?rs' = "concat (map (cut newsize ?end) (ranges reader))"
  from lt have s0: "reader_size reader \<noteq> 0" by auto
  then have ue: "unat ?end = unat (reader_size reader) - 1" by (simp add: unat_minus_one)
  from s0 have spos: "0 < unat (reader_size reader)" by (simp add: unat_gt_0)
  from lt have ltn: "unat newsize < unat (reader_size reader)" by (simp add: word_less_nat_alt)
  have v: "?end < reader_size reader" "newsize \<le> ?end"
    using ue spos ltn by (simp_all add: word_less_nat_alt word_le_nat_alt)
  note rm = sb_remove_range_cut [OF inv good v]
  note p = reader_inv_parts [OF inv]
  show "sb_resize al reader newsize =
           Some (0, None,
             reader\<lparr>ranges := ?rs',
                    reader_pos := (if newsize < reader_pos reader then newsize else reader_pos reader),
                    reader_size := newsize\<rparr>)"
    using n0 lt rm(1) by (simp add: sb_resize_def)
  have se: "unat newsize \<le> unat ?end" using v(2) by (simp add: word_le_nat_alt)
  have "\<forall>q\<in>set ?rs'. range_ok q \<and> range_end q \<le> unat newsize"
  proof
    fix q assume "q \<in> set ?rs'"
    then obtain r where r: "r \<in> set (ranges reader)" and q: "q \<in> set (cut newsize ?end r)" by auto
    from r p(1,4) have "range_ok r" "range_end r < 2 ^ LENGTH('a)"
      "range_end r \<le> unat ?end + 1"
      using ue spos by (auto simp add: ranges_within_def list_all_iff)
    from cut_tail_within [OF this se] q show "range_ok q \<and> range_end q \<le> unat newsize" by blast
  qed
  then have w: "ranges_within (unat newsize) ?rs'" by (simp add: ranges_within_def list_all_iff)
  moreover from rm(2) have "separated ?rs'" by (simp add: reader_inv_def)
  moreover from inv have "reader_pos reader \<le> reader_size reader" by (simp add: reader_inv_def)
  ultimately show "reader_inv
           (reader\<lparr>ranges := ?rs',
                   reader_pos := (if newsize < reader_pos reader then newsize else reader_pos reader),
                   reader_size := newsize\<rparr>)"
    by (simp add: reader_inv_def not_less)
  have "loaded (ranges reader) x = None" if "unat (reader_size reader) \<le> x"
    using p(1) that by (intro loaded_above) (auto simp add: ranges_within_def list_all_iff)
  then show "loaded ?rs' x = (if unat newsize \<le> x then None else loaded (ranges reader) x)"
    using rm(3) [of x] ue by (cases "x \<le> unat ?end") auto
qed

text \<open>
  In a state satisfying the invariants, with the allocations succeeding, \<^verbatim>\<open>sb_resize\<close>
  does what the specification says of it: size 0 is rejected with -1 and changes
  nothing; shrinking removes the interval from the new size to the old size minus one,
  so that every offset at or beyond the new size is unloaded and the others are as
  before, clamps the cursor to the new size, and stores the new size; growing changes
  the size field only, and the offsets beyond the old size read as zero; resizing to
  the current size returns the reader unchanged.
\<close>

lemma sb_resize_within:
  fixes reader :: "'a::len word SBReader"
  assumes inv: "reader_inv reader" and good: "False \<notin> set al"
  shows "sb_resize al reader 0 = Some (-1, Some Resize_zero, reader)
         \<and> (newsize \<noteq> 0 \<and> newsize < reader_size reader \<longrightarrow>
              sb_resize al reader newsize =
                Some (0, None,
                  reader\<lparr>ranges := concat (map (cut newsize (reader_size reader - 1)) (ranges reader)),
                         reader_pos := (if newsize < reader_pos reader then newsize
                                        else reader_pos reader),
                         reader_size := newsize\<rparr>) \<and>
              (\<forall>x. loaded (concat (map (cut newsize (reader_size reader - 1)) (ranges reader))) x =
                 (if unat newsize \<le> x then None else loaded (ranges reader) x)) \<and>
              reader_inv
                (reader\<lparr>ranges := concat (map (cut newsize (reader_size reader - 1)) (ranges reader)),
                        reader_pos := (if newsize < reader_pos reader then newsize
                                       else reader_pos reader),
                        reader_size := newsize\<rparr>))
         \<and> (reader_size reader < newsize \<longrightarrow>
              sb_resize al reader newsize = Some (0, None, reader\<lparr>reader_size := newsize\<rparr>) \<and>
              (\<forall>x. unat (reader_size reader) \<le> x \<longrightarrow> byte_at (ranges reader) x = 0) \<and>
              reader_inv (reader\<lparr>reader_size := newsize\<rparr>))
         \<and> (reader_size reader \<noteq> 0 \<longrightarrow>
              sb_resize al reader (reader_size reader) = Some (0, None, reader))"
proof -
  note p = reader_inv_parts [OF inv]
  have A: "sb_resize al reader 0 = Some (-1, Some Resize_zero, reader)"
    by (simp add: sb_resize_def)
  have B: "newsize \<noteq> 0 \<and> newsize < reader_size reader \<longrightarrow>
              sb_resize al reader newsize =
                Some (0, None,
                  reader\<lparr>ranges := concat (map (cut newsize (reader_size reader - 1)) (ranges reader)),
                         reader_pos := (if newsize < reader_pos reader then newsize
                                        else reader_pos reader),
                         reader_size := newsize\<rparr>) \<and>
              (\<forall>x. loaded (concat (map (cut newsize (reader_size reader - 1)) (ranges reader))) x =
                 (if unat newsize \<le> x then None else loaded (ranges reader) x)) \<and>
              reader_inv
                (reader\<lparr>ranges := concat (map (cut newsize (reader_size reader - 1)) (ranges reader)),
                        reader_pos := (if newsize < reader_pos reader then newsize
                                       else reader_pos reader),
                        reader_size := newsize\<rparr>)"
    using sb_resize_shrink [OF inv good] by blast
  have C: "reader_size reader < newsize \<longrightarrow>
              sb_resize al reader newsize = Some (0, None, reader\<lparr>reader_size := newsize\<rparr>) \<and>
              (\<forall>x. unat (reader_size reader) \<le> x \<longrightarrow> byte_at (ranges reader) x = 0) \<and>
              reader_inv (reader\<lparr>reader_size := newsize\<rparr>)"
  proof
    assume gt: "reader_size reader < newsize"
    then have n0: "newsize \<noteq> 0" by auto
    from gt have ng: "\<not> newsize < reader_size reader" by simp
    have r: "sb_resize al reader newsize = Some (0, None, reader\<lparr>reader_size := newsize\<rparr>)"
      using n0 ng by (simp add: sb_resize_def)
    have z: "\<forall>x. unat (reader_size reader) \<le> x \<longrightarrow> byte_at (ranges reader) x = 0"
    proof (intro allI impI)
      fix x assume "unat (reader_size reader) \<le> x"
      with p(1) have "loaded (ranges reader) x = None"
        by (intro loaded_above) (auto simp add: ranges_within_def list_all_iff)
      then show "byte_at (ranges reader) x = 0" by (simp add: byte_at_def)
    qed
    from gt have "unat (reader_size reader) \<le> unat newsize" by (simp add: word_less_nat_alt)
    with p(1) have "ranges_within (unat newsize) (ranges reader)"
      by (auto simp add: ranges_within_def list_all_iff)
    moreover from inv gt have "reader_pos reader \<le> newsize" by (auto simp add: reader_inv_def)
    ultimately have i: "reader_inv (reader\<lparr>reader_size := newsize\<rparr>)"
      using p(2) by (simp add: reader_inv_def)
    from r z i show "sb_resize al reader newsize = Some (0, None, reader\<lparr>reader_size := newsize\<rparr>) \<and>
              (\<forall>x. unat (reader_size reader) \<le> x \<longrightarrow> byte_at (ranges reader) x = 0) \<and>
              reader_inv (reader\<lparr>reader_size := newsize\<rparr>)"
      by blast
  qed
  have D: "reader_size reader \<noteq> 0 \<longrightarrow>
              sb_resize al reader (reader_size reader) = Some (0, None, reader)"
    by (simp add: sb_resize_def)
  show ?thesis by (rule conjI [OF A conjI [OF B conjI [OF C D]]])
qed

lemma sb_resize_within_example:
  "reader_inv remove_reader \<and> False \<notin> set ([] :: allocator) \<and>
   sb_resize [] remove_reader 0 = Some (-1, Some Resize_zero, remove_reader) \<and>
   sb_resize [] remove_reader 10 =
     Some (0, None, \<lparr>reader_pos = 0, reader_size = 10,
       ranges = [\<lparr>range_pos = 2, range_size = 3, range_data = [1, 2, 3]\<rparr>,
                 \<lparr>range_pos = 8, range_size = 2, range_data = [4, 5]\<rparr>]\<rparr>) \<and>
   sb_resize [] remove_reader 30 = Some (0, None, remove_reader\<lparr>reader_size := 30\<rparr>) \<and>
   byte_at (ranges remove_reader) 25 = 0 \<and>
   sb_resize [] remove_reader 20 = Some (0, None, remove_reader)"
proof -
  have good: "False \<notin> set ([] :: allocator)" by simp
  have s: "reader_size remove_reader = 20" by (simp add: remove_reader_def)
  have a: "sb_resize [] remove_reader 0 = Some (-1, Some Resize_zero, remove_reader)"
    using sb_resize_within [OF remove_reader_inv good] by blast
  have b: "sb_resize [] remove_reader 10 =
     Some (0, None, \<lparr>reader_pos = 0, reader_size = 10,
       ranges = [\<lparr>range_pos = 2, range_size = 3, range_data = [1, 2, 3]\<rparr>,
                 \<lparr>range_pos = 8, range_size = 2, range_data = [4, 5]\<rparr>]\<rparr>)"
    using sb_resize_within [OF remove_reader_inv good, of 10]
    by (simp add: remove_reader_def cut_def left_part_def right_part_def range_end_def)
  have c: "sb_resize [] remove_reader 30 = Some (0, None, remove_reader\<lparr>reader_size := 30\<rparr>) \<and>
      byte_at (ranges remove_reader) 25 = 0"
    using sb_resize_within [OF remove_reader_inv good, of 30] by (simp add: s)
  have d: "sb_resize [] remove_reader 20 = Some (0, None, remove_reader)"
    using sb_resize_within [OF remove_reader_inv good, of 20] by (simp add: s)
  from remove_reader_inv good a b c d show ?thesis by simp
qed

subsection \<open>Loads within the buffer keep the invariants\<close>

lemma range_ok_payload:
  fixes r :: "'a::len word Range"
  shows "range_ok r \<Longrightarrow> range_end r < 2 ^ LENGTH('a) \<Longrightarrow> payload_ok r"
  by (simp add: range_ok_def payload_ok_def)

lemma merge_extent:
  fixes a b :: "'a::len word Range"
  assumes oa: "range_ok a" and ob: "range_ok b"
    and wa: "range_end a < 2 ^ LENGTH('a)" and wb: "range_end b < 2 ^ LENGTH('a)"
    and i: "intersects a b" and ok: "alloc_ok al"
  shows "\<exists>m. merge al a b = (Merged m, alloc_next al) \<and> range_ok m \<and>
           unat (range_pos m) = min (unat (range_pos a)) (unat (range_pos b)) \<and>
           range_end m = max (range_end a) (range_end b)"
proof -
  note pa = range_ok_payload [OF oa wa] and pb = range_ok_payload [OF ob wb]
  from i have ov: "unat (range_pos b) \<le> range_end a" "unat (range_pos a) \<le> range_end b"
    by (simp_all add: intersects_nat [OF wa wb])
  show ?thesis
  proof (cases "contains a b")
    case True
    with merge_contains_a [OF pa i True ok] oa show ?thesis
      by (auto simp add: contains_nat [OF wa wb] min_def max_def)
  next
    case ca: False
    show ?thesis
    proof (cases "contains b a")
      case True
      with merge_contains_b [OF pb i ca True ok] ob show ?thesis
        by (auto simp add: contains_nat [OF wb wa] min_def max_def)
    next
      case cb: False
      show ?thesis
      proof (cases "unat (range_pos a) < unat (range_pos b)")
        case True
        with ca have ends: "range_end a < range_end b" by (simp add: contains_nat [OF wa wb])
        note m = merge_partial_a_first [OF pa pb True ov(1) ends ok]
        let ?m = "\<lparr>range_pos = range_pos a,
              range_size = range_pos b + range_size b - range_pos a,
              range_data = range_data a @ drop (range_end a - unat (range_pos b)) (range_data b)\<rparr>"
        have re: "range_end ?m = range_end b" using m(2) ov(2) by (simp add: range_end_def)
        have "0 < unat (range_pos b + range_size b - range_pos a)"
          using m(2) True ends range_end_ge [of a] by simp
        then have "range_pos b + range_size b - range_pos a \<noteq> 0"
          by (simp add: unat_gt_0)
        moreover have "length (range_data ?m) = unat (range_size ?m)"
          using m(2) oa ob True ov(1) ends by (simp add: range_end_def range_ok_def)
        ultimately have "range_ok ?m" by (simp add: range_ok_def)
        with m(1) re True ends show ?thesis by (intro exI [of _ ?m]) (simp add: min_def max_def)
      next
        case False
        with cb have ord: "unat (range_pos b) < unat (range_pos a)"
          using ca ov by (auto simp add: contains_nat [OF wb wa] contains_nat [OF wa wb])
        with cb have ends: "range_end b < range_end a" by (simp add: contains_nat [OF wb wa])
        note m = merge_partial_b_first [OF pa pb ord ov(2) ends ok]
        let ?m = "\<lparr>range_pos = range_pos b,
              range_size = range_pos a + range_size a - range_pos b,
              range_data = take (unat (range_pos a) - unat (range_pos b)) (range_data b) @ range_data a\<rparr>"
        have re: "range_end ?m = range_end a" using m(2) ov(1) by (simp add: range_end_def)
        have "0 < unat (range_pos a + range_size a - range_pos b)"
          using m(2) ord ends range_end_ge [of b] by simp
        then have "range_pos a + range_size a - range_pos b \<noteq> 0"
          by (simp add: unat_gt_0)
        moreover have "length (range_data ?m) = unat (range_size ?m)"
          using m(2) oa ob ord ov(2) ends by (simp add: range_end_def range_ok_def)
        ultimately have "range_ok ?m" by (simp add: range_ok_def)
        with m(1) re ord ends show ?thesis by (intro exI [of _ ?m]) (simp add: min_def max_def)
      qed
    qed
  qed
qed


lemma not_intersects_after:
  fixes m q :: "'a::len word Range"
  assumes "range_end m < 2 ^ LENGTH('a)" "range_end q < 2 ^ LENGTH('a)"
    "\<not> intersects m q" "unat (range_pos m) \<le> unat (range_pos q)"
  shows "range_end m < unat (range_pos q)"
  using assms range_end_ge [of q] by (auto simp add: intersects_nat)

lemma merge_further_inv:
  fixes reader :: "'a::len word SBReader"
  assumes "ranges reader = pre @ m # post"
    and "ranges_within S (ranges reader)" and "S < 2 ^ LENGTH('a)"
    and "separated (pre @ [m])" and "separated post"
    and "\<forall>q\<in>set post. unat (range_pos m) < unat (range_pos q)"
    and "False \<notin> set al"
  shows "\<exists>rs'. merge_further al reader (length pre) = Some (0, None, reader\<lparr>ranges := rs'\<rparr>) \<and>
           ranges_within S rs' \<and> separated rs'"
  using assms
proof (induction post arbitrary: reader m al)
  case Nil
  then have "merge_step al reader (length pre) = Return (0, None, reader)"
    by (simp add: merge_step_def)
  then have "merge_further al reader (length pre) = Some (0, None, reader\<lparr>ranges := ranges reader\<rparr>)"
    by (subst merge_further.simps) simp
  with Nil show ?case by (intro exI [of _ "ranges reader"]) simp
next
  case (Cons q post)
  let ?k = "length pre"
  note rs = Cons.prems(1) and within = Cons.prems(2) and S2 = Cons.prems(3)
    and sm = Cons.prems(4) and sq = Cons.prems(5) and lt = Cons.prems(6) and good = Cons.prems(7)
  from rs have k: "Suc ?k < length (ranges reader)" and nk: "ranges reader ! ?k = m"
    and nk1: "ranges reader ! Suc ?k = q"
    by (simp_all add: nth_append)
  from within rs have om: "range_ok m" and oq: "range_ok q"
    and em: "range_end m \<le> S" and eq: "range_end q \<le> S"
    and wpre: "ranges_within S pre" and wpost: "ranges_within S post"
    by (simp_all add: ranges_within_def)
  from em eq S2 have wm: "range_end m < 2 ^ LENGTH('a)" and wq: "range_end q < 2 ^ LENGTH('a)"
    by simp_all
  from lt have mq: "unat (range_pos m) < unat (range_pos q)" by simp
  have qpost: "\<forall>y\<in>set post. range_end q < unat (range_pos y)"
    using separated_Cons [OF sq] by blast
  have prem: "\<forall>x\<in>set pre. range_end x < unat (range_pos m)"
    using sm unfolding separated_sorted_wrt sorted_wrt_append by simp
  have spre: "separated pre" and spost: "separated post"
    using sm sq unfolding separated_sorted_wrt sorted_wrt_append by simp_all
  show ?case
  proof (cases "intersects m q")
    case False
    then have "merge al m q = (Not_merged, al)" by (rule merge_not_intersects)
    with k nk nk1 have "merge_step al reader ?k = Return (0, None, reader)"
      by (simp add: merge_step_def)
    then have r: "merge_further al reader ?k = Some (0, None, reader\<lparr>ranges := ranges reader\<rparr>)"
      by (subst merge_further.simps) simp
    from not_intersects_after [OF wm wq False] mq have g: "range_end m < unat (range_pos q)" by simp
    have "separated (pre @ m # q # post)"
      unfolding separated_sorted_wrt sorted_wrt_append
      using sm sq prem g qpost lt range_end_ge [of q] range_end_ge [of m]
      unfolding separated_sorted_wrt sorted_wrt_append
      by fastforce
    with r rs within show ?thesis by (intro exI [of _ "ranges reader"]) simp
  next
    case True
    from merge_extent [OF om oq wm wq True alloc_ok_good [OF good]] obtain m'
      where mg: "merge al m q = (Merged m', alloc_next al)" and om': "range_ok m'"
        and pm': "unat (range_pos m') = min (unat (range_pos m)) (unat (range_pos q))"
        and em': "range_end m' = max (range_end m) (range_end q)"
      by blast
    from pm' mq have pm: "range_pos m' = range_pos m" by (simp add: min_def word_unat_eq_iff)
    let ?rs1 = "(ranges reader)[?k := m']"
    have rs1: "?rs1 = pre @ m' # q # post" using rs by (simp add: list_update_append)
    have px: "\<forall>x\<in>set pre. range_pos x < range_pos m"
    proof
      fix x assume "x \<in> set pre"
      with prem have "range_end x < unat (range_pos m)" by simp
      with range_end_ge [of x] show "range_pos x < range_pos m" by (simp add: word_less_nat_alt)
    qed
    have pq: "range_pos m < range_pos q" using mq by (simp add: word_less_nat_alt)
    have py: "\<forall>y\<in>set post. range_pos q < range_pos y"
    proof
      fix y assume "y \<in> set post"
      with qpost have "range_end q < unat (range_pos y)" by simp
      with range_end_ge [of q] show "range_pos q < range_pos y" by (simp add: word_less_nat_alt)
    qed
    have "pos_sorted (pre @ m # q # post)"
      unfolding pos_sorted_append pos_sorted_Cons
      using separated_pos_sorted [OF spre] separated_pos_sorted [OF spost] px pq py
      by (auto intro: less_trans) (meson less_trans)
    then have "pos_sorted ?rs1"
      unfolding rs1 by (simp add: pos_sorted_def pm)
    then have "range_index ?rs1 (range_pos (?rs1 ! Suc ?k)) = Some (Suc ?k)"
      using k by (intro range_index_distinct pos_sorted_distinct) simp_all
    then have ri: "range_index ?rs1 (range_pos q) = Some (Suc ?k)"
      by (simp add: rs1 nth_append)
    have rem: "take (Suc ?k) ?rs1 @ drop (Suc (Suc ?k)) ?rs1 = pre @ m' # post"
      by (simp add: rs1)
    let ?rd = "reader\<lparr>ranges := pre @ m' # post\<rparr>"
    have step: "merge_step al reader ?k = Continue (alloc_next al) ?rd ?k"
      using k nk nk1 mg ri rem by (simp add: merge_step_def Let_def)
    have "\<exists>rs'. merge_further (alloc_next al) ?rd ?k = Some (0, None, ?rd\<lparr>ranges := rs'\<rparr>) \<and>
           ranges_within S rs' \<and> separated rs'"
    proof (rule Cons.IH)
      show "ranges ?rd = pre @ m' # post" by simp
      show "ranges_within S (ranges ?rd)"
        using wpre wpost om' em' em eq by (simp add: ranges_within_def)
      show "S < 2 ^ LENGTH('a)" by (rule S2)
      show "separated (pre @ [m'])"
        using sm unfolding separated_sorted_wrt sorted_wrt_append by (simp add: pm)
      show "separated post" by (rule spost)
      show "\<forall>y\<in>set post. unat (range_pos m') < unat (range_pos y)"
        using lt by (simp add: pm)
      show "False \<notin> set (alloc_next al)" by (rule alloc_next_good [OF good])
    qed
    then obtain rs' where "merge_further (alloc_next al) ?rd ?k = Some (0, None, reader\<lparr>ranges := rs'\<rparr>)"
      and "ranges_within S rs'" and "separated rs'"
      by auto
    moreover have "merge_further al reader ?k = merge_further (alloc_next al) ?rd ?k"
      by (subst merge_further.simps) (simp add: step)
    ultimately show ?thesis by auto
  qed
qed


lemma merge_first_split:
  "merge_first al r rs = First_merged k rs' al' \<Longrightarrow>
   \<exists>pre E post m. rs = pre @ E # post \<and> k = length pre \<and> rs' = pre @ m # post \<and>
     merge al r E = (Merged m, al') \<and> (\<forall>p\<in>set pre. \<not> intersects r p)"
proof (induction rs arbitrary: k rs')
  case Nil
  then show ?case by simp
next
  case (Cons e es)
  obtain res al1 where m: "merge al r e = (res, al1)" by (cases "merge al r e") auto
  show ?case
  proof (cases res)
    case Merge_failed
    with Cons.prems m show ?thesis by simp
  next
    case (Merged mr)
    with Cons.prems m have "k = 0" "rs' = mr # es" "al' = al1" by simp_all
    with m Merged show ?thesis
      by (intro exI [of _ "[]"] exI [of _ e] exI [of _ es] exI [of _ mr]) simp
  next
    case Not_merged
    from merge_Not_merged [OF m [unfolded Not_merged]] have ni: "\<not> intersects r e" and al: "al1 = al"
      by simp_all
    from Cons.prems m Not_merged al obtain k' es'
      where mf: "merge_first al r es = First_merged k' es' al'" and k: "k = Suc k'"
        and rs': "rs' = e # es'"
      by (auto split: first_merge.splits)
    from Cons.IH [OF mf] obtain pre E post mr
      where "es = pre @ E # post" "k' = length pre" "es' = pre @ mr # post"
        "merge al r E = (Merged mr, al')" "\<forall>p\<in>set pre. \<not> intersects r p"
      by blast
    with k rs' ni show ?thesis
      by (intro exI [of _ "e # pre"] exI [of _ E] exI [of _ post] exI [of _ mr]) simp
  qed
qed

lemma merge_first_No_merge:
  "merge_first al r rs = No_merge \<Longrightarrow> \<forall>e\<in>set rs. \<not> intersects r e"
proof (induction rs)
  case Nil
  then show ?case by simp
next
  case (Cons e es)
  obtain res al1 where m: "merge al r e = (res, al1)" by (cases "merge al r e") auto
  with Cons.prems have res: "res = Not_merged"
    by (cases res) (auto split: first_merge.splits)
  from merge_Not_merged [OF m [unfolded res]] have "\<not> intersects r e" "al1 = al" by simp_all
  moreover with Cons.prems m res have "merge_first al r es = No_merge"
    by (auto split: first_merge.splits)
  ultimately show ?case using Cons.IH by simp
qed

lemma insert_separated:
  fixes r :: "'a::len word Range"
  assumes sep: "separated (xs @ ys)"
    and wr: "range_end r < 2 ^ LENGTH('a)"
    and wx: "\<forall>e\<in>set (xs @ ys). range_end e < 2 ^ LENGTH('a)"
    and ni: "\<forall>e\<in>set (xs @ ys). \<not> intersects r e"
    and lo: "\<forall>x\<in>set xs. \<not> range_pos r < range_pos x"
    and hi: "\<forall>y\<in>set ys. range_pos r < range_pos y"
  shows "separated (xs @ r # ys)"
proof -
  have a: "range_end x < unat (range_pos r)" if "x \<in> set xs" for x
  proof -
    from that wx ni lo have "range_end x < 2 ^ LENGTH('a)" "\<not> intersects r x"
      "unat (range_pos x) \<le> unat (range_pos r)"
      by (auto simp add: word_less_nat_alt)
    then show ?thesis using wr range_end_ge [of r] by (auto simp add: intersects_nat)
  qed
  have b: "range_end r < unat (range_pos y)" if "y \<in> set ys" for y
  proof -
    from that wx ni hi have "range_end y < 2 ^ LENGTH('a)" "\<not> intersects r y"
      "unat (range_pos r) \<le> unat (range_pos y)"
      by (auto simp add: word_less_nat_alt)
    from not_intersects_after [OF wr this] show ?thesis .
  qed
  from sep a b show ?thesis
    unfolding separated_sorted_wrt sorted_wrt_append by auto
qed


lemma merge_Merged:
  "merge al a b = (Merged m, al') \<Longrightarrow> intersects a b \<and> alloc_ok al \<and> al' = alloc_next al"
  by (auto simp add: merge_def Let_def split: if_splits)

text \<open>
  A load whose range lies within the buffer keeps the invariants: the check against the
  cursor is the only way past them.
\<close>

lemma sb_load_range_inv:
  fixes reader :: "'a::len word SBReader"
  assumes inv: "reader_inv reader" and good: "False \<notin> set al"
    and v: "bufsize \<noteq> 0" "reader_pos reader + bufsize \<le> reader_size reader"
    and len: "unat bufsize \<le> length buf"
    and fit: "unat pos + unat bufsize \<le> unat (reader_size reader)"
  shows "\<exists>rs'. sb_load_range al reader pos buf bufsize = Some (0, None, reader\<lparr>ranges := rs'\<rparr>) \<and>
           reader_inv (reader\<lparr>ranges := rs'\<rparr>)"
proof -
  let ?S = "unat (reader_size reader)"
  let ?rs = "ranges reader"
  let ?r = "\<lparr>range_pos = pos, range_size = bufsize, range_data = memcpy buf 0 (unat bufsize)\<rparr>"
  let ?al = "alloc_next (alloc_next al)"
  note p = reader_inv_parts [OF inv]
  have S2: "?S < 2 ^ LENGTH('a)" by simp
  from v have nv: "\<not> reader_size reader < reader_pos reader + bufsize" by (simp add: not_less)
  have ok1: "alloc_ok al" and ok2: "alloc_ok (alloc_next al)" and good2: "False \<notin> set ?al"
    using good by (simp_all add: alloc_ok_good alloc_next_good)
  have okr: "range_ok ?r" using v(1) len by (simp add: range_ok_def memcpy_def)
  have er: "range_end ?r \<le> ?S" using fit by (simp add: range_end_def)
  from er S2 have wr: "range_end ?r < 2 ^ LENGTH('a)" by (rule le_less_trans)
  have cur: "reader_pos reader \<le> reader_size reader" using inv by (simp add: reader_inv_def)
  have fin: "\<exists>rs'. sb_load_range al reader pos buf bufsize = Some (0, None, reader\<lparr>ranges := rs'\<rparr>) \<and>
           reader_inv (reader\<lparr>ranges := rs'\<rparr>)"
    if "sb_load_range al reader pos buf bufsize = Some (0, None, reader\<lparr>ranges := rs'\<rparr>)"
      "ranges_within ?S rs'" "separated rs'" for rs'
    using that cur by (intro exI [of _ rs']) (simp add: reader_inv_def)
  show ?thesis
  proof (cases "?rs = []")
    case True
    with v nv ok1 ok2 have "sb_load_range al reader pos buf bufsize = Some (0, None, reader\<lparr>ranges := [?r]\<rparr>)"
      by (simp add: sb_load_range_def)
    moreover have "ranges_within ?S [?r]" using okr er by (simp add: ranges_within_def)
    moreover have "separated [?r]" by simp
    ultimately show ?thesis by (rule fin)
  next
    case ne: False
    show ?thesis
    proof (cases "merge_first ?al ?r ?rs")
      case First_failed
      have "case merge_first ?al ?r ?rs of
           First_failed \<Rightarrow> False
         | No_merge \<Rightarrow> True
         | First_merged k es' al' \<Rightarrow> pos_sorted ([] @ es') \<and> k < length es' \<and> False \<notin> set al'"
        using p good2 by (intro merge_first_sorted) (simp_all add: separated_pos_sorted)
      with First_failed show ?thesis by simp
    next
      case No_merge
      from merge_first_No_merge [OF No_merge] have ni: "\<forall>e\<in>set ?rs. \<not> intersects ?r e" .
      have wx: "\<forall>e\<in>set ?rs. range_end e < 2 ^ LENGTH('a)" using p(4) by simp
      show ?thesis
      proof (cases "find (\<lambda>e. pos < range_pos e) ?rs")
        case None
        then have lo: "\<forall>x\<in>set ?rs. \<not> range_pos ?r < range_pos x" by (simp add: find_None_iff)
        have "sb_load_range al reader pos buf bufsize =
            Some (0, None, reader\<lparr>ranges := ?rs @ [?r]\<rparr>)"
          using v nv ok1 ok2 ne No_merge None
          by (simp add: sb_load_range_def range_insert_end_def)
        moreover have "ranges_within ?S (?rs @ [?r])"
          using p(1) okr er by (simp add: ranges_within_def)
        moreover have "separated (?rs @ [?r])"
          using p(2) wr wx ni lo by (intro insert_separated) simp_all
        ultimately show ?thesis by (rule fin)
      next
        case (Some e)
        then obtain i where i: "i < length ?rs" and Pi: "pos < range_pos (?rs ! i)"
          and e: "e = ?rs ! i" and before: "\<forall>j<i. \<not> pos < range_pos (?rs ! j)"
          by (auto simp add: find_Some_iff)
        have d: "distinct (map range_pos ?rs)"
          by (intro pos_sorted_distinct separated_pos_sorted p(2))
        have ri: "range_index ?rs (range_pos e) = Some i"
          unfolding e by (rule range_index_distinct [OF d i])
        have ld: "sb_load_range al reader pos buf bufsize =
            Some (0, None, reader\<lparr>ranges := take i ?rs @ ?r # drop i ?rs\<rparr>)"
          using v nv ok1 ok2 ne No_merge Some ri
          by (simp add: sb_load_range_def range_insert_before_def)
        have lo: "\<forall>x\<in>set (take i ?rs). \<not> range_pos ?r < range_pos x"
          using before i by (auto simp add: in_set_conv_nth)
        have hi: "\<forall>y\<in>set (drop i ?rs). range_pos ?r < range_pos y"
        proof
          fix y assume "y \<in> set (drop i ?rs)"
          from separated_drop_pos [OF p(2) i this] Pi
          show "range_pos ?r < range_pos y" by (simp add: word_less_nat_alt)
        qed
        note ld
        moreover have "ranges_within ?S (take i ?rs @ ?r # drop i ?rs)"
        proof -
          from p(1) have "ranges_within ?S (take i ?rs @ drop i ?rs)" by simp
          then have "ranges_within ?S (take i ?rs)" "ranges_within ?S (drop i ?rs)"
            unfolding ranges_within_append by simp_all
          then show ?thesis using okr er by (simp add: ranges_within_def)
        qed
        moreover have "separated (take i ?rs @ ?r # drop i ?rs)"
          using p(2) wr wx ni lo hi by (intro insert_separated) simp_all
        ultimately show ?thesis by (rule fin)
      qed
    next
      case (First_merged k rs1 al')
      from merge_first_split [OF First_merged] obtain pre E post m
        where rs: "?rs = pre @ E # post" and k: "k = length pre" and rs1: "rs1 = pre @ m # post"
          and mg: "merge ?al ?r E = (Merged m, al')" and nip: "\<forall>x\<in>set pre. \<not> intersects ?r x"
        by blast
      from merge_Merged [OF mg] have i: "intersects ?r E" and al': "al' = alloc_next ?al" by simp_all
      from p(1,4) rs have oE: "range_ok E" and wE: "range_end E < 2 ^ LENGTH('a)"
        and eE: "range_end E \<le> ?S" and wpre: "ranges_within ?S pre" and wpost: "ranges_within ?S post"
        by (simp_all add: ranges_within_def)
      from merge_extent [OF okr oE wr wE i alloc_ok_good [OF good2]] mg
      have om: "range_ok m"
        and pm: "unat (range_pos m) = min (unat (range_pos ?r)) (unat (range_pos E))"
        and em: "range_end m = max (range_end ?r) (range_end E)"
        by auto
      from p(2) rs have "separated (pre @ E # post)" by simp
      then have sE: "separated (pre @ [E])" and spost: "separated post"
        and Epost: "\<forall>y\<in>set post. range_end E < unat (range_pos y)"
        unfolding separated_sorted_wrt sorted_wrt_append by simp_all
      from i have ov: "unat (range_pos E) \<le> range_end ?r" by (simp add: intersects_nat [OF wr wE])
      have prem: "range_end x < unat (range_pos m)" if "x \<in> set pre" for x
      proof -
        from that sE have xE: "range_end x < unat (range_pos E)"
          unfolding separated_sorted_wrt sorted_wrt_append by simp
        from that p(4) rs have wx: "range_end x < 2 ^ LENGTH('a)" by simp
        from that nip have "\<not> intersects ?r x" by simp
        with xE ov range_end_ge [of x] have "range_end x < unat (range_pos ?r)"
          by (auto simp add: intersects_nat [OF wr wx])
        with xE show ?thesis by (simp add: pm)
      qed
      have sm: "separated (pre @ [m])"
        using sE prem unfolding separated_sorted_wrt sorted_wrt_append by simp
      have lt: "\<forall>y\<in>set post. unat (range_pos m) < unat (range_pos y)"
        using Epost range_end_ge [of E] by (auto simp add: pm min_def)
      have "\<exists>rs'. merge_further al' (reader\<lparr>ranges := rs1\<rparr>) (length pre) =
            Some (0, None, reader\<lparr>ranges := rs1\<rparr>\<lparr>ranges := rs'\<rparr>) \<and>
           ranges_within ?S rs' \<and> separated rs'"
      proof (rule merge_further_inv)
        show "ranges (reader\<lparr>ranges := rs1\<rparr>) = pre @ m # post" by (simp add: rs1)
        show "ranges_within ?S (ranges (reader\<lparr>ranges := rs1\<rparr>))"
          using wpre wpost om em er eE by (simp add: rs1 ranges_within_def)
        show "?S < 2 ^ LENGTH('a)" by (rule S2)
        show "separated (pre @ [m])" by (rule sm)
        show "separated post" by (rule spost)
        show "\<forall>y\<in>set post. unat (range_pos m) < unat (range_pos y)" by (rule lt)
        show "False \<notin> set al'" unfolding al' by (rule alloc_next_good [OF good2])
      qed
      then obtain rs' where mf: "merge_further al' (reader\<lparr>ranges := rs1\<rparr>) k =
            Some (0, None, reader\<lparr>ranges := rs'\<rparr>)" and w': "ranges_within ?S rs'"
        and s': "separated rs'"
        by (auto simp add: k)
      have "sb_load_range al reader pos buf bufsize =
          merge_further al' (reader\<lparr>ranges := rs1\<rparr>) k"
        using v nv ok1 ok2 ne First_merged by (simp add: sb_load_range_def)
      with mf have "sb_load_range al reader pos buf bufsize =
          Some (0, None, reader\<lparr>ranges := rs'\<rparr>)" by simp
      from this w' s' show ?thesis by (rule fin)
    qed
  qed
qed

subsection \<open>A load beyond the end of the buffer\<close>

text \<open>
  Claim C2 at a failing input. On a fresh reader of size 50 with the cursor at 0,
  \<^verbatim>\<open>sb_load_range\<close> at offset 45 with 10 bytes returns 0: the check compares
  \<^verbatim>\<open>reader->pos + bufsize\<close>, which is 10, with the size. The range stored ends at 55,
  beyond the size, so the invariants hold before the call and not after it; a read of
  55 bytes then succeeds on a buffer of size 50. A load that lies within the buffer
  keeps the invariants (\<open>sb_load_range_inv\<close>), and so does every removal
  (\<open>sb_remove_range_cut\<close>).
\<close>

theorem load_past_buffer_end:
  "reader_inv small_reader \<and>
   sb_load_range [] small_reader 45 [1, 2, 3, 4, 5, 6, 7, 8, 9, 10] 10 =
     Some (0, None, small_reader\<lparr>ranges := [outside_range]\<rparr>) \<and>
   range_end outside_range = 55 \<and>
   unat (reader_size (small_reader\<lparr>ranges := [outside_range]\<rparr>)) = 50 \<and>
   \<not> reader_inv (small_reader\<lparr>ranges := [outside_range]\<rparr>) \<and>
   sb_read (small_reader\<lparr>ranges := [outside_range]\<rparr>) 55 =
     (55, None, replicate 45 0 @ [1, 2, 3, 4, 5, 6, 7, 8, 9, 10],
      small_reader\<lparr>ranges := [outside_range]\<rparr>)"
  by (simp add: small_reader_def outside_range_def reader_inv_def ranges_within_def range_ok_def
      range_end_def sb_load_range_def alloc_ok_def alloc_next_def memcpy_def sb_read_def Let_def)

subsection \<open>Growing a buffer that holds such a range\<close>

text \<open>
  Claim C7 at a failing input. A reader is created with size 50, 10 bytes are loaded
  at offset 45 with the cursor at 0, and the reader is resized to 60. Each call
  succeeds, and \<^verbatim>\<open>sb_resize\<close> changes the size field only. The range stored by the
  load ends at 55, so the newly addressable tail does not read as zero: a read of
  the 10 bytes from offset 50 returns 6, 7, 8, 9, 10 and then five zeros. The range
  beyond the size comes from the check of \<^verbatim>\<open>sb_load_range\<close> against the cursor, the
  defect of the preceding subsection; where the invariants hold before the call, the
  tail reads as zero (\<open>sb_resize_within\<close>).
\<close>

theorem grow_reads_loaded_tail:
  "sb_new_reader_custom_alloc [] 50 = Inr small_reader \<and>
   sb_load_range [] small_reader 45 [1, 2, 3, 4, 5, 6, 7, 8, 9, 10] 10 =
     Some (0, None, small_reader\<lparr>ranges := [outside_range]\<rparr>) \<and>
   sb_resize [] (small_reader\<lparr>ranges := [outside_range]\<rparr>) 60 =
     Some (0, None, small_reader\<lparr>ranges := [outside_range], reader_size := 60\<rparr>) \<and>
   sb_seek (small_reader\<lparr>ranges := [outside_range], reader_size := 60\<rparr>) 50 SB_SET =
     (0, None, Some 50,
      small_reader\<lparr>ranges := [outside_range], reader_size := 60, reader_pos := 50\<rparr>) \<and>
   sb_read (small_reader\<lparr>ranges := [outside_range], reader_size := 60, reader_pos := 50\<rparr>) 10 =
     (10, None, [6, 7, 8, 9, 10, 0, 0, 0, 0, 0],
      small_reader\<lparr>ranges := [outside_range], reader_size := 60, reader_pos := 50\<rparr>) \<and>
   byte_at [outside_range] 50 = 6"
proof -
  have z: "replicate 5 (0 :: 8 word) = [0, 0, 0, 0, 0]" by code_simp
  show ?thesis
    by (simp add: small_reader_def outside_range_def sb_new_reader_custom_alloc_def
        sb_load_range_def alloc_ok_def alloc_next_def memcpy_def sb_resize_def sb_seek_def
        seek_to_def sb_read_def Let_def byte_at_def range_end_def z)
qed
end
